theory Spec2Isabelle
  imports Main
begin

section \<open>Rate limiter (src/middleware/rateLimit.ts)\<close>

text \<open>
  Numbers. Every number of the limiter is an integer or \<open>NaN\<close>: \<open>Date.now()\<close> is an integer,
  the limit and the window come from \<open>parseInt\<close> (an integer, or \<open>NaN\<close> for a text without
  digits), and a count read from a value that has none is \<open>undefined\<close>, which arithmetic turns
  into \<open>NaN\<close>. An integer below \<open>2^53\<close> in magnitude is a double that \<open>+\<close>, \<open>-\<close> and \<open>*\<close> treat
  exactly; the model takes the integers as unbounded and so describes the code as long as its
  numbers stay in that range. Arithmetic with \<open>NaN\<close> gives \<open>NaN\<close>, every comparison with
  \<open>NaN\<close> is false.
\<close>

datatype jsnum = Num int | NaN

fun js_add :: "jsnum \<Rightarrow> jsnum \<Rightarrow> jsnum" where
  "js_add (Num a) (Num b) = Num (a + b)"
| "js_add _ _ = NaN"

fun js_sub :: "jsnum \<Rightarrow> jsnum \<Rightarrow> jsnum" where
  "js_sub (Num a) (Num b) = Num (a - b)"
| "js_sub _ _ = NaN"

fun js_mul :: "jsnum \<Rightarrow> jsnum \<Rightarrow> jsnum" where
  "js_mul (Num a) (Num b) = Num (a * b)"
| "js_mul _ _ = NaN"

fun js_gt :: "jsnum \<Rightarrow> jsnum \<Rightarrow> bool" where
  "js_gt (Num a) (Num b) = (a > b)"
| "js_gt _ _ = False"

fun js_le :: "jsnum \<Rightarrow> jsnum \<Rightarrow> bool" where
  "js_le (Num a) (Num b) = (a \<le> b)"
| "js_le _ _ = False"

text \<open>\<open>Math.max(0, x)\<close>\<close>

fun js_max0 :: "jsnum \<Rightarrow> jsnum" where
  "js_max0 (Num a) = Num (max 0 a)"
| "js_max0 NaN = NaN"

text \<open>\<open>x++\<close> on a property that may be missing: \<open>undefined\<close> becomes \<open>NaN\<close>.\<close>

fun js_incr :: "jsnum option \<Rightarrow> jsnum" where
  "js_incr None = NaN"
| "js_incr (Some x) = js_add x (Num 1)"

text \<open>
  The store of the limiter is a plain object (\<open>{}\<close>) indexed by the client identifier. Its own
  properties are the entries that \<open>check\<close> installs; an entry holds the request count of the
  current window and the instant (milliseconds) at which the window ends. A plain object
  inherits from \<open>Object.prototype\<close>, so \<open>this.store[identifier]\<close> also finds the members of
  \<open>Object.prototype\<close>: eleven functions and, under \<open>__proto__\<close>, \<open>Object.prototype\<close> itself.
  These values are truthy and have no \<open>resetAt\<close>. \<open>check\<close> writes a \<open>count\<close> on them;
  \<open>proto_count\<close> records it, by member name (a function without a \<open>count\<close> of its own
  inherits the one written on \<open>Object.prototype\<close>). \<open>Date.now()\<close> is an input of every call.
\<close>

record rl_entry =
  count :: jsnum
  resetAt :: jsnum

type_synonym rl_store = "string \<rightharpoonup> rl_entry"

record rate_limiter =
  store :: rl_store
  proto_count :: "string \<rightharpoonup> jsnum"
  limit :: jsnum
  windowMs :: jsnum

record rl_result =
  allowed :: bool
  remaining :: jsnum
  res_resetAt :: "jsnum option"

definition object_prototype_names :: "string list" where
  "object_prototype_names =
     [''constructor'', ''__defineGetter__'', ''__defineSetter__'', ''hasOwnProperty'',
      ''__lookupGetter__'', ''__lookupSetter__'', ''isPrototypeOf'', ''propertyIsEnumerable'',
      ''toString'', ''valueOf'', ''__proto__'', ''toLocaleString'']"

text \<open>
  \<open>this.store[identifier]\<close>: an own entry, else an inherited member, else \<open>undefined\<close> (also
  for the name \<open>count\<close> once \<open>Object.prototype\<close> has one: its value \<open>NaN\<close> is falsy).
\<close>

datatype slot = Undefined | Own rl_entry | Inherited

definition lookup :: "rate_limiter \<Rightarrow> string \<Rightarrow> slot" where
  "lookup rl identifier =
     (case store rl identifier of
        Some entry \<Rightarrow> Own entry
      | None \<Rightarrow> if identifier \<in> set object_prototype_names then Inherited else Undefined)"

text \<open>\<open>entry.count\<close> of an inherited member (\<open>None\<close> is \<open>undefined\<close>).\<close>

definition inherited_count :: "rate_limiter \<Rightarrow> string \<Rightarrow> jsnum option" where
  "inherited_count rl identifier =
     (case proto_count rl identifier of
        Some c \<Rightarrow> Some c
      | None \<Rightarrow> proto_count rl ''__proto__'')"

text \<open>The constructor: \<open>windowMs = windowSeconds * 1000\<close>, the store starts empty.\<close>

definition new_RateLimiter :: "jsnum \<Rightarrow> jsnum \<Rightarrow> rate_limiter" where
  "new_RateLimiter lim windowSeconds =
     \<lparr>store = Map.empty, proto_count = Map.empty, limit = lim,
      windowMs = js_mul windowSeconds (Num 1000)\<rparr>"

text \<open>
  \<open>check(identifier)\<close>: the state after the call and the object it returns (\<open>resetAt\<close> of the
  result is \<open>None\<close> when it is \<open>undefined\<close>). An entry object and an inherited member are
  truthy, so \<open>!entry\<close> holds exactly when the lookup gives \<open>undefined\<close>; for an inherited
  member \<open>now > entry.resetAt\<close> compares with \<open>undefined\<close> and is false.
\<close>

definition fresh_entry :: "rate_limiter \<Rightarrow> string \<Rightarrow> int \<Rightarrow> rate_limiter \<times> rl_result" where
  "fresh_entry rl identifier now =
     (rl\<lparr>store := (store rl)(identifier \<mapsto>
            \<lparr>count = Num 1, resetAt = js_add (Num now) (windowMs rl)\<rparr>)\<rparr>,
      \<lparr>allowed = True, remaining = js_sub (limit rl) (Num 1),
       res_resetAt = Some (js_add (Num now) (windowMs rl))\<rparr>)"

definition check :: "rate_limiter \<Rightarrow> string \<Rightarrow> int \<Rightarrow> rate_limiter \<times> rl_result" where
  "check rl identifier now =
     (case lookup rl identifier of
        Undefined \<Rightarrow> fresh_entry rl identifier now
      | Own entry \<Rightarrow>
          if js_gt (Num now) (resetAt entry) then fresh_entry rl identifier now
          else
            (let entry' = entry\<lparr>count := js_incr (Some (count entry))\<rparr> in
             (rl\<lparr>store := (store rl)(identifier \<mapsto> entry')\<rparr>,
              \<lparr>allowed = js_le (count entry') (limit rl),
               remaining = js_max0 (js_sub (limit rl) (count entry')),
               res_resetAt = Some (resetAt entry')\<rparr>))
      | Inherited \<Rightarrow>
          (let c = js_incr (inherited_count rl identifier) in
           (rl\<lparr>proto_count := (proto_count rl)(identifier \<mapsto> c)\<rparr>,
            \<lparr>allowed = js_le c (limit rl),
             remaining = js_max0 (js_sub (limit rl) c),
             res_resetAt = None\<rparr>)))"

text \<open>\<open>reset(identifier)\<close> deletes the own entry.\<close>

definition reset :: "rate_limiter \<Rightarrow> string \<Rightarrow> rate_limiter" where
  "reset rl identifier = rl\<lparr>store := (store rl)(identifier := None)\<rparr>"

text \<open>
  A run of calls to \<open>check\<close> for one identifier, at the given instants: the final state and
  the results in call order.
\<close>

fun checks :: "rate_limiter \<Rightarrow> string \<Rightarrow> int list \<Rightarrow> rate_limiter \<times> rl_result list" where
  "checks rl identifier [] = (rl, [])"
| "checks rl identifier (t # ts) =
     (let (rl1, r) = check rl identifier t;
          (rl2, rs) = checks rl1 identifier ts
      in (rl2, r # rs))"


section \<open>Strings\<close>

text \<open>
  A string is the list of its code units. The model covers the code units 0 to 255 (the type
  \<open>char\<close>), read as Latin-1; \<open>.length\<close> is \<open>length\<close>. In this range the white space of
  \<open>String.prototype.trim\<close> and of the class \<open>\s\<close> is TAB, LF, VT, FF, CR, SPACE and NBSP, and
  \<open>\w\<close> is \<open>[A-Za-z0-9_]\<close>.
\<close>

definition is_space :: "char \<Rightarrow> bool" where
  "is_space c = (c \<in> set [CHR 0x09, CHR 0x0A, CHR 0x0B, CHR 0x0C, CHR 0x0D, CHR 0x20, CHR 0xA0])"

definition is_word :: "char \<Rightarrow> bool" where
  "is_word c = (c \<in> set (''abcdefghijklmnopqrstuvwxyz'' @ ''ABCDEFGHIJKLMNOPQRSTUVWXYZ'' @
     ''0123456789_''))"

definition trim :: "string \<Rightarrow> string" where
  "trim s = rev (dropWhile is_space (rev (dropWhile is_space s)))"

definition startsWith :: "string \<Rightarrow> string \<Rightarrow> bool" where
  "startsWith s pre = (take (length pre) s = pre)"

fun str_includes :: "string \<Rightarrow> string \<Rightarrow> bool" where
  "str_includes [] sub = (sub = [])"
| "str_includes (x # xs) sub = (startsWith (x # xs) sub \<or> str_includes xs sub)"

text \<open>
  \<open>String.prototype.toLowerCase\<close> on Latin-1: \<open>A-Z\<close> and the capital letters 0xC0 to 0xDE
  (but the multiplication sign 0xD7) move up by 32; nothing else changes.
\<close>

definition toLowerCase_unit :: "char \<Rightarrow> char" where
  "toLowerCase_unit c = (let n = (of_char c :: nat) in
     if (65 \<le> n \<and> n \<le> 90) \<or> (192 \<le> n \<and> n \<le> 222 \<and> n \<noteq> 215) then char_of (n + 32) else c)"

definition toLowerCase :: "string \<Rightarrow> string" where
  "toLowerCase s = map toLowerCase_unit s"


section \<open>Regular expressions\<close>

text \<open>
  The patterns of the source are values of \<open>regex\<close>, and \<open>run\<close> is the backtracking matcher
  of ECMAScript: from a position (the code unit before it, the rest of the input and the
  captures so far) it returns every way the pattern can match there, as the positions reached,
  in the order in which backtracking tries them. The head of the list is the match that
  \<open>exec\<close> reports. A greedy quantifier tries one more iteration before stopping, a lazy one
  stops first; an iteration that consumes nothing is discarded, as in the language
  definition. \<open>Group n\<close> records the text matched by capture \<open>n\<close>; no pattern of the source
  has a capture under a repetition that could run twice, so captures are never reset.
\<close>

type_synonym caps = "(nat \<times> string) list"
type_synonym mstate = "char option \<times> string \<times> caps"

datatype regex =
    Eps
  | Cls "char \<Rightarrow> bool"
  | Seq regex regex
  | Alt regex regex
  | Star regex
  | Lazy regex
  | Group nat regex
  | WordB
  | NegLook regex

text \<open>\<open>\b\<close>: exactly one of the code units around the position is a word character.\<close>

definition at_boundary :: "char option \<Rightarrow> string \<Rightarrow> bool" where
  "at_boundary p s =
     ((case p of None \<Rightarrow> False | Some c \<Rightarrow> is_word c) \<noteq>
      (case s of [] \<Rightarrow> False | c # _ \<Rightarrow> is_word c))"

definition progress :: "string \<Rightarrow> mstate \<Rightarrow> bool" where
  "progress s st = (length (fst (snd st)) < length s)"

function run :: "regex \<Rightarrow> mstate \<Rightarrow> mstate list" where
  "run Eps st = [st]"
| "run (Cls P) (p, s, c) =
     (case s of [] \<Rightarrow> [] | x # xs \<Rightarrow> if P x then [(Some x, xs, c)] else [])"
| "run (Seq a b) st = concat (map (run b) (run a st))"
| "run (Alt a b) st = run a st @ run b st"
| "run (Star a) (p, s, c) =
     concat (map (run (Star a)) (filter (progress s) (run a (p, s, c)))) @ [(p, s, c)]"
| "run (Lazy a) (p, s, c) =
     (p, s, c) # concat (map (run (Lazy a)) (filter (progress s) (run a (p, s, c))))"
| "run (Group n a) (p, s, c) =
     map (\<lambda>(p', s', c'). (p', s', (n, take (length s - length s') s) # c')) (run a (p, s, c))"
| "run WordB (p, s, c) = (if at_boundary p s then [(p, s, c)] else [])"
| "run (NegLook a) st = (if run a st = [] then [st] else [])"
  by pat_completeness auto
termination
  by (relation "inv_image (less_than <*lex*> less_than) (\<lambda>(r, p, s, c). (size r, length s))")
     (auto simp: progress_def)

text \<open>Pattern syntax: a character, a character under flag \<open>i\<close>, sequences, \<open>|\<close>, \<open>+\<close>, \<open>?\<close>.\<close>

definition chr :: "char \<Rightarrow> regex" where
  "chr c = Cls (\<lambda>x. x = c)"

text \<open>
  Flag \<open>i\<close> compares canonical (upper case) forms. The patterns only name ASCII characters,
  and no code unit above 127 is canonicalised to an ASCII one, so comparing after mapping
  \<open>a-z\<close> to \<open>A-Z\<close> is the same test.
\<close>

definition ascii_upper :: "char \<Rightarrow> char" where
  "ascii_upper c =
     (case map_of (zip ''abcdefghijklmnopqrstuvwxyz'' ''ABCDEFGHIJKLMNOPQRSTUVWXYZ'') c of
        Some u \<Rightarrow> u
      | None \<Rightarrow> c)"

definition chr_i :: "char \<Rightarrow> regex" where
  "chr_i c = Cls (\<lambda>x. ascii_upper x = ascii_upper c)"

definition seqs :: "regex list \<Rightarrow> regex" where
  "seqs rs = foldr Seq rs Eps"

definition lit :: "string \<Rightarrow> regex" where
  "lit s = seqs (map chr s)"

definition lit_i :: "string \<Rightarrow> regex" where
  "lit_i s = seqs (map chr_i s)"

fun alts :: "regex \<Rightarrow> regex list \<Rightarrow> regex" where
  "alts r [] = r"
| "alts r (r' # rs) = Alt r (alts r' rs)"

definition many1 :: "regex \<Rightarrow> regex" where
  "many1 r = Seq r (Star r)"

definition opt :: "regex \<Rightarrow> regex" where
  "opt r = Alt r Eps"

text \<open>\<open>[\s\S]\<close>\<close>

definition any_unit :: regex where
  "any_unit = Cls (\<lambda>c. is_space c \<or> \<not> is_space c)"

text \<open>
  \<open>RegExp.prototype.test\<close> of a pattern without flag \<open>g\<close>: is there a match starting at some
  position of the string, the end included.
\<close>

fun test_from :: "regex \<Rightarrow> char option \<Rightarrow> string \<Rightarrow> bool" where
  "test_from r p [] = (run r (p, [], []) \<noteq> [])"
| "test_from r p (x # xs) = (run r (p, x # xs, []) \<noteq> [] \<or> test_from r (Some x) xs)"

definition test :: "regex \<Rightarrow> string \<Rightarrow> bool" where
  "test r s = test_from r None s"

text \<open>
  \<open>String.prototype.replace\<close> with a pattern under flag \<open>g\<close>: scanning from the left, the
  first match at the earliest position is replaced by what the replacement function makes of
  the matched text and the captures, and the scan goes on behind the match; after an empty
  match it copies one code unit and moves on.
\<close>

function replace_all ::
  "regex \<Rightarrow> (string \<Rightarrow> caps \<Rightarrow> string) \<Rightarrow> char option \<Rightarrow> string \<Rightarrow> string" where
  "replace_all r f p s =
     (case run r (p, s, []) of
        [] \<Rightarrow> (case s of [] \<Rightarrow> [] | x # xs \<Rightarrow> x # replace_all r f (Some x) xs)
      | (p', s', c') # _ \<Rightarrow>
          if length s' < length s
          then f (take (length s - length s') s) c' @ replace_all r f p' s'
          else f [] c' @ (case s of [] \<Rightarrow> [] | x # xs \<Rightarrow> x # replace_all r f (Some x) xs))"
  by pat_completeness auto
termination
  by (relation "measure (\<lambda>(r, f, p, s). length s)") auto

definition replace :: "string \<Rightarrow> regex \<Rightarrow> (string \<Rightarrow> caps \<Rightarrow> string) \<Rightarrow> string" where
  "replace s r f = replace_all r f None s"

text \<open>The value of capture \<open>n\<close> in a replacement; a capture that took no part is empty.\<close>

definition cap :: "caps \<Rightarrow> nat \<Rightarrow> string" where
  "cap c n = (case map_of c n of None \<Rightarrow> [] | Some s \<Rightarrow> s)"


section \<open>Context service (services/context.ts)\<close>

datatype severity = Info | Warning | Critical

datatype role = System | User | Assistant

record chat_message =
  role :: role
  content :: string

definition join_lines :: "string list \<Rightarrow> string" where
  "join_lines ls =
     concat (map (\<lambda>l. l @ [CHR 0x0A]) (butlast ls)) @ (case ls of [] \<Rightarrow> [] | _ \<Rightarrow> last ls)"

text \<open>The guidelines text built by \<open>buildContext\<close>, line by line.\<close>

definition guidelines :: string where
  \<open>guidelines = join_lines [
    ''You are an expert code reviewer with deep knowledge of software engineering best practices.'',
    [],
    ''YOUR ROLE:'',
    ''- Analyze code for bugs, security vulnerabilities, and performance issues'',
    ''- Suggest improvements for code quality, readability, and maintainability'',
    ''- Provide constructive feedback following best practices'',
    ''- Explain your reasoning clearly and concisely'',
    [],
    ''REVIEW FOCUS AREAS:'',
    ''1. **Security**: SQL injection, XSS, CSRF, authentication, authorization, secrets in code'',
    ''2. **Bugs**: Logic errors, edge cases, null/undefined handling, type safety'',
    ''3. **Performance**: Algorithm complexity, memory leaks, unnecessary operations'',
    ''4. **Code Quality**: DRY, SOLID principles, naming conventions, code organization'',
    ''5. **Best Practices**: Error handling, logging, testing, documentation'',
    [],
    ''OUTPUT FORMAT:'',
    ''Provide your review in the following structure:'',
    [],
    ''**Severity**: [INFO / WARNING / CRITICAL]'',
    [],
    ''**Issues Found**:'',
    ''- Issue 1: [Description]'',
    ''- Issue 2: [Description]'',
    [],
    ''**Suggestions**:'',
    ''1. [Specific improvement with code example if applicable]'',
    ''2. [Another suggestion]'',
    [],
    ''**Positive Aspects** (if any):'',
    ''- [What's done well]'',
    [],
    ''Keep your response concise but actionable. Focus on the most important issues first.'']\<close>

text \<open>An optional string argument is falsy when it is absent or empty.\<close>

definition buildSystemPrompt :: "string option \<Rightarrow> string" where
  "buildSystemPrompt language =
     (let langContext =
        (case language of
           None \<Rightarrow> []
         | Some l \<Rightarrow>
             if l = [] then []
             else [CHR 0x0A] @ ''PROGRAMMING LANGUAGE: '' @ l @ [CHR 0x0A] @ ''Focus on '' @ l @
                  ''-specific best practices and common pitfalls.'')
      in guidelines @ langContext)"

definition buildUserPrompt :: "string \<Rightarrow> string option \<Rightarrow> string" where
  "buildUserPrompt code userContext =
     (let contextNote =
        (case userContext of
           None \<Rightarrow> []
         | Some u \<Rightarrow>
             if u = [] then []
             else [CHR 0x0A, CHR 0x0A] @ ''ADDITIONAL CONTEXT:'' @ [CHR 0x0A] @ u @ [CHR 0x0A])
      in ''Please review the following code:'' @ contextNote @ [CHR 0x0A, CHR 0x0A] @
         ''```'' @ [CHR 0x0A] @ code @ [CHR 0x0A] @ ''```'' @ [CHR 0x0A, CHR 0x0A] @
         ''Provide a comprehensive code review focusing on security, bugs, performance, and best practices.'')"

text \<open>\<open>extractSeverity\<close>\<close>

definition extractSeverity :: "string \<Rightarrow> severity" where
  "extractSeverity response =
     (let lowerResponse = toLowerCase response in
      if str_includes lowerResponse ''critical'' \<or>
         str_includes lowerResponse ''security vulnerability'' \<or>
         str_includes lowerResponse ''sql injection'' \<or>
         str_includes lowerResponse ''xss''
      then Critical
      else if str_includes lowerResponse ''warning'' \<or>
              str_includes lowerResponse ''bug'' \<or>
              str_includes lowerResponse ''issue''
      then Warning
      else Info)"

text \<open>
  \<open>sanitizeCode\<close>. The two patterns are
  \<^verbatim>\<open>/<script\b[^<]*(?:(?!<\/script>)<[^<]*)*<\/script>/gi\<close> and the same with \<open>iframe\<close>.
\<close>

definition not_lt :: regex where
  "not_lt = Cls (\<lambda>c. c \<noteq> CHR ''<'')"

text \<open>The repeated group \<^verbatim>\<open>(?:(?!<\/script>)<[^<]*)\<close>.\<close>

definition tag_step :: "string \<Rightarrow> regex" where
  "tag_step tag = seqs [NegLook (lit_i (''</'' @ tag @ ''>'')), chr_i CHR ''<'', Star not_lt]"

definition block_re :: "string \<Rightarrow> regex" where
  "block_re tag =
     seqs [lit_i (''<'' @ tag), WordB, Star not_lt, Star (tag_step tag),
           lit_i (''</'' @ tag @ ''>'')]"

definition script_re :: regex where
  "script_re = block_re ''script''"

definition iframe_re :: regex where
  "iframe_re = block_re ''iframe''"

definition sanitizeCode :: "string \<Rightarrow> string" where
  "sanitizeCode code =
     trim (replace (replace code script_re (\<lambda>m c. ''[REMOVED: script tag]''))
                   iframe_re (\<lambda>m c. ''[REMOVED: iframe tag]''))"

definition validateCodeLength :: "string \<Rightarrow> int \<Rightarrow> bool" where
  "validateCodeLength code maxLength = (length code > 0 \<and> int (length code) \<le> maxLength)"

text \<open>
  \<open>isCode\<close>: the three strong patterns
  \<^verbatim>\<open>/\b(SELECT|INSERT|UPDATE|DELETE)\b[\s\S]*\b(FROM|INTO|SET|WHERE)\b/i\<close>,
  \<^verbatim>\<open>/\b(function|def|async\s+function)\s+\w+\s*\(/\<close>,
  \<^verbatim>\<open>/<\w+[^>]*>[\s\S]*<\/\w+>/\<close>
  and the nine indicators, in the order of the source.
\<close>

definition strongIndicators :: "regex list" where
  "strongIndicators =
    [seqs [WordB,
           Group 1 (alts (lit_i ''SELECT'') [lit_i ''INSERT'', lit_i ''UPDATE'', lit_i ''DELETE'']),
           WordB, Star any_unit, WordB,
           Group 2 (alts (lit_i ''FROM'') [lit_i ''INTO'', lit_i ''SET'', lit_i ''WHERE'']),
           WordB],
     seqs [WordB,
           Group 1 (alts (lit ''function'')
                      [lit ''def'', seqs [lit ''async'', many1 (Cls is_space), lit ''function'']]),
           many1 (Cls is_space), many1 (Cls is_word), Star (Cls is_space), chr CHR ''(''],
     seqs [chr CHR ''<'', many1 (Cls is_word), Star (Cls (\<lambda>c. c \<noteq> CHR ''>'')), chr CHR ''>'',
           Star any_unit, lit ''</'', many1 (Cls is_word), chr CHR ''>'']]"

definition codeIndicators :: "regex list" where
  \<open>codeIndicators =
    [seqs [WordB,
           Group 1 (alts (lit ''function'')
             [lit ''const'', lit ''let'', lit ''var'', lit ''class'', lit ''import'', lit ''export'',
              lit ''return'', lit ''if'', lit ''else'', lit ''for'', lit ''while'', lit ''switch'',
              lit ''case'']),
           WordB],
     Cls (\<lambda>c. c \<in> set ''{}[]();''),
     seqs [many1 (Cls is_word), Star (Cls is_space), chr CHR ''='', Star (Cls is_space),
           Cls (\<lambda>c. is_word c \<or> c \<in> set [CHR 0x22, CHR 0x27, CHR 0x60])],
     lit ''=>'',
     seqs [many1 (Cls is_word), chr CHR ''.'', many1 (Cls is_word), chr CHR ''(''],
     seqs [chr CHR '':'', Star (Cls is_space),
           Group 1 (alts (lit ''string'')
             [lit ''number'', lit ''boolean'', lit ''any'', lit ''void'', lit ''Array''])],
     seqs [chr_i CHR ''<'', opt (chr_i CHR ''/''),
           Cls (\<lambda>c. ascii_upper c \<in> set ''ABCDEFGHIJKLMNOPQRSTUVWXYZ''),
           Star any_unit, chr_i CHR ''>''],
     seqs [WordB,
           Group 1 (alts (lit_i ''SELECT'')
             [lit_i ''INSERT'', lit_i ''UPDATE'', lit_i ''DELETE'', lit_i ''FROM'', lit_i ''WHERE'',
              lit_i ''JOIN'', lit_i ''LIMIT'', lit_i ''ORDER BY'']),
           WordB],
     alts (lit ''//'') [lit ''/*'', lit ''*/'', seqs [chr CHR ''#'', Cls is_space]]]\<close>

definition isCode :: "string \<Rightarrow> bool" where
  "isCode input =
     (let trimmed = trim input in
      if startsWith trimmed ''```'' \<or> str_includes trimmed ''```'' then True
      else if \<exists>pattern \<in> set strongIndicators. test pattern trimmed then True
      else
        (let matches = length (filter (\<lambda>pattern. test pattern trimmed) codeIndicators) in
         if length trimmed < 50 \<and> matches < 2 then False
         else matches \<ge> 2))"

definition buildChatSystemPrompt :: string where
  \<open>buildChatSystemPrompt = join_lines [
    ''You are a helpful AI assistant that specializes in software development and programming.'',
    [],
    ''YOUR ROLE:'',
    ''- Answer questions about programming, software development, and technology'',
    ''- Provide explanations and guidance'',
    ''- Help with problem-solving and debugging concepts'',
    ''- Be friendly and conversational'',
    [],
    ''IMPORTANT:'',
    ''- If the user provides code snippets, you can discuss them, but don't automatically do a full code review unless specifically asked'',
    ''- Be concise and helpful'',
    ''- Use clear, simple language'',
    ''- Provide examples when helpful'']\<close>

definition buildChatUserPrompt :: "string \<Rightarrow> string" where
  "buildChatUserPrompt message = message"


section \<open>Errors\<close>

text \<open>
  The error classes thrown by the services, each with the site that throws it in place of
  its message text. \<open>TypeError\<close> is the error of the language itself, which is not an
  \<open>AppError\<close>.
\<close>

datatype validation_reason = CodeRequired | CodeTooLong int | CodeEmpty

datatype session_reason = StorageUnavailable | NotFoundOrExpired

datatype ai_reason = NoResponse | EmptyResponse | RequestFailed string

datatype error =
    ValidationError validation_reason
  | SessionError session_reason
  | AIServiceError ai_reason
  | TypeError

text \<open>
  Modelled from the spec: \<open>utils/errors.ts\<close>, which gives each error class its status code, is
  not among the sources; section 7 of the spec lists the codes. The global \<open>onError\<close> handler
  (index.ts) answers an \<open>AppError\<close> with its own status and anything else with 500.
\<close>

definition statusCode :: "error \<Rightarrow> nat" where
  "statusCode e =
     (case e of
        ValidationError _ \<Rightarrow> 400
      | SessionError _ \<Rightarrow> 404
      | AIServiceError _ \<Rightarrow> 502
      | TypeError \<Rightarrow> 500)"


section \<open>AI service (services/groq.ts)\<close>

text \<open>
  The upstream completion API is outside the program: a call either fails with a message or
  returns a list of choices (absent, empty, or each with a content that may be missing).
\<close>

datatype upstream = Failed string | NoChoices | Choices "string option list"

type_synonym client = "chat_message list \<Rightarrow> upstream"

definition chatCompletion :: "client \<Rightarrow> chat_message list \<Rightarrow> error + string" where
  "chatCompletion cl msgs =
     (case cl msgs of
        Failed m \<Rightarrow> Inl (AIServiceError (RequestFailed (if m = [] then ''Unknown error occurred'' else m)))
      | NoChoices \<Rightarrow> Inl (AIServiceError NoResponse)
      | Choices [] \<Rightarrow> Inl (AIServiceError NoResponse)
      | Choices (c # _) \<Rightarrow>
          (case c of
             None \<Rightarrow> Inl (AIServiceError EmptyResponse)
           | Some text \<Rightarrow>
               if text = [] then Inl (AIServiceError EmptyResponse) else Inr text))"

definition reviewCode ::
  "client \<Rightarrow> string \<Rightarrow> string \<Rightarrow> string \<Rightarrow> chat_message list \<Rightarrow> error + string" where
  "reviewCode cl code systemPrompt userPrompt previousMessages =
     chatCompletion cl
       ([\<lparr>role = System, content = systemPrompt\<rparr>] @ previousMessages @
        [\<lparr>role = User, content = userPrompt\<rparr>])"

text \<open>\<open>sanitizeResponse\<close>; the third pattern is \<^verbatim>\<open>/on\w+="[^"]*"/gi\<close>.\<close>

definition handler_re :: regex where
  \<open>handler_re =
     seqs [lit_i ''on'', many1 (Cls is_word), lit_i ''="'', Star (Cls (\<lambda>c. c \<noteq> CHR 0x22)),
           chr_i CHR 0x22]\<close>

definition sanitizeResponse :: "string \<Rightarrow> string" where
  "sanitizeResponse response =
     trim (replace (replace (replace response script_re (\<lambda>m c. []))
                            iframe_re (\<lambda>m c. []))
                   handler_re (\<lambda>m c. []))"

text \<open>\<open>escapeHtml\<close>: \<^verbatim>\<open>text.replace(/[&<>"']/g, char => map[char])\<close>.\<close>

definition escapeHtml :: "string \<Rightarrow> string" where
  \<open>escapeHtml text =
     replace text (Cls (\<lambda>c. c \<in> set [CHR ''&'', CHR ''<'', CHR ''>'', CHR 0x22, CHR 0x27]))
       (\<lambda>char c.
          case map_of [(''&'', ''&amp;''), (''<'', ''&lt;''), (''>'', ''&gt;''),
                       ([CHR 0x22], ''&quot;''), ([CHR 0x27], ''&#039;'')] char of
            Some e \<Rightarrow> e
          | None \<Rightarrow> ''undefined'')\<close>

text \<open>
  \<open>formatReview\<close>: the patterns are \<^verbatim>\<open>/```(\w+)?\n([\s\S]*?)```/g\<close>,
  \<^verbatim>\<open>/`([^`]+)`/g\<close>, \<^verbatim>\<open>/\*\*([^*]+)\*\*/g\<close> and \<^verbatim>\<open>/\*([^*]+)\*/g\<close>.
\<close>

definition fence_re :: regex where
  "fence_re =
     seqs [lit ''```'', opt (Group 1 (many1 (Cls is_word))), chr CHR 0x0A,
           Group 2 (Lazy any_unit), lit ''```'']"

definition inline_re :: regex where
  "inline_re = seqs [chr CHR 0x60, Group 1 (many1 (Cls (\<lambda>c. c \<noteq> CHR 0x60))), chr CHR 0x60]"

definition bold_re :: regex where
  "bold_re = seqs [lit ''**'', Group 1 (many1 (Cls (\<lambda>c. c \<noteq> CHR ''*''))), lit ''**'']"

definition italic_re :: regex where
  "italic_re = seqs [chr CHR ''*'', Group 1 (many1 (Cls (\<lambda>c. c \<noteq> CHR ''*''))), chr CHR ''*'']"

definition fence_html :: "string \<Rightarrow> caps \<Rightarrow> string" where
  \<open>fence_html m c =
     (let lang = cap c 1; code = cap c 2 in
      ''<pre><code class="language-'' @ (if lang = [] then ''text'' else lang) @ ''">'' @
      escapeHtml (trim code) @ ''</code></pre>'')\<close>

definition formatReview :: "string \<Rightarrow> string" where
  "formatReview review =
     (let formatted =
        replace (replace (replace (replace review fence_re fence_html)
                                  inline_re (\<lambda>m c. ''<code>'' @ cap c 1 @ ''</code>''))
                         bold_re (\<lambda>m c. ''<strong>'' @ cap c 1 @ ''</strong>''))
                italic_re (\<lambda>m c. ''<em>'' @ cap c 1 @ ''</em>'')
      in sanitizeResponse formatted)"


section \<open>Session service (services/session.ts)\<close>

text \<open>
  Timestamps are instants in milliseconds; the source keeps them as the ISO text of the
  instant. Every method reads the clock; the reading is an argument of the method.
\<close>

record session =
  session_id :: string
  messages :: "chat_message list"
  created_at :: int
  updated_at :: int
  expires_at :: int

text \<open>
  The key-value namespace is outside the program: a value is a text with the instant at which
  the store drops it, and \<open>get\<close> answers \<open>null\<close> for a key that is absent or expired. A
  text is represented by what \<open>JSON.parse\<close> makes of it: the session it encodes, or a parse
  failure; the empty text is kept apart because the source tests the text for truthiness.
\<close>

datatype kv_text = Json session | Malformed | EmptyText

type_synonym kv_namespace = "string \<rightharpoonup> (kv_text \<times> int)"

definition kv_get :: "kv_namespace \<Rightarrow> string \<Rightarrow> int \<Rightarrow> kv_text option" where
  "kv_get k key now =
     (case k key of
        None \<Rightarrow> None
      | Some (v, expiry) \<Rightarrow> if now < expiry then Some v else None)"

definition kv_put :: "kv_namespace \<Rightarrow> string \<Rightarrow> kv_text \<Rightarrow> int \<Rightarrow> int \<Rightarrow> kv_namespace" where
  "kv_put k key v now expirationTtl = k(key \<mapsto> (v, now + expirationTtl * 1000))"

definition kv_delete :: "kv_namespace \<Rightarrow> string \<Rightarrow> kv_namespace" where
  "kv_delete k key = k(key := None)"

text \<open>
  The state a request can change: the namespace bound to the service, if any, and the
  requests sent to the completion API so far.
\<close>

record world =
  kv :: "kv_namespace option"
  calls :: "chat_message list list"

definition sessionTTL :: int where
  "sessionTTL = 3600"

definition session_key :: "string \<Rightarrow> string" where
  "session_key sessionId = ''session:'' @ sessionId"

text \<open>
  \<open>safeJsonParse\<close> belongs to \<open>utils/errors.ts\<close>, which is not among the sources; it is
  taken by its use: the parsed value, or the fallback when the text does not parse.
\<close>

definition safeJsonParse :: "kv_text \<Rightarrow> session \<Rightarrow> session" where
  "safeJsonParse text fallback = (case text of Json s \<Rightarrow> s | _ \<Rightarrow> fallback)"

definition createSession :: "world \<Rightarrow> string \<Rightarrow> int \<Rightarrow> session \<times> world" where
  "createSession w sessionId now =
     (let session = \<lparr>session_id = sessionId, messages = [], created_at = now, updated_at = now,
                     expires_at = now + sessionTTL * 1000\<rparr>
      in case kv w of
           None \<Rightarrow> (session, w)
         | Some k \<Rightarrow>
             (session, w\<lparr>kv := Some (kv_put k (session_key sessionId) (Json session) now sessionTTL)\<rparr>))"

definition getSession :: "world \<Rightarrow> string \<Rightarrow> int \<Rightarrow> error + session" where
  "getSession w sessionId now =
     (case kv w of
        None \<Rightarrow> Inl (SessionError StorageUnavailable)
      | Some k \<Rightarrow>
          (case kv_get k (session_key sessionId) now of
             None \<Rightarrow> Inl (SessionError NotFoundOrExpired)
           | Some EmptyText \<Rightarrow> Inl (SessionError NotFoundOrExpired)
           | Some sessionData \<Rightarrow>
               Inr (safeJsonParse sessionData
                      \<lparr>session_id = sessionId, messages = [], created_at = now, updated_at = now,
                       expires_at = now\<rparr>)))"

text \<open>
  \<open>updateSession\<close> changes the session object it is given; the object after the call is
  returned with the new state.
\<close>

definition updateSession :: "world \<Rightarrow> session \<Rightarrow> int \<Rightarrow> session \<times> world" where
  "updateSession w session now =
     (case kv w of
        None \<Rightarrow> (session, w)
      | Some k \<Rightarrow>
          (let session' = session\<lparr>updated_at := now\<rparr>
           in (session',
               w\<lparr>kv := Some (kv_put k (session_key (session_id session')) (Json session') now sessionTTL)\<rparr>)))"

text \<open>\<open>messages.slice(-10)\<close> when there are more than ten.\<close>

definition keep_last_10 :: "chat_message list \<Rightarrow> chat_message list" where
  "keep_last_10 ms = (if length ms > 10 then drop (length ms - 10) ms else ms)"

text \<open>
  The readings a request takes from its surroundings, in the order of use: the identifier
  drawn by the route, the identifier drawn by \<open>createSession\<close>, and the clock at the lookup,
  at the creation, at the update and at the response.
\<close>

record env =
  route_uuid :: string
  session_uuid :: string
  t_get :: int
  t_create :: int
  t_update :: int
  t_response :: int

definition addMessage ::
  "world \<Rightarrow> env \<Rightarrow> string \<Rightarrow> role \<Rightarrow> string \<Rightarrow> session \<times> world" where
  "addMessage w e sessionId r text =
     (let (session, w1) =
        (case getSession w sessionId (t_get e) of
           Inr s \<Rightarrow> (s, w)
         | Inl _ \<Rightarrow> createSession w (session_uuid e) (t_create e));
          session1 = session\<lparr>messages := messages session @ [\<lparr>role = r, content = text\<rparr>]\<rparr>;
          session2 = session1\<lparr>messages := keep_last_10 (messages session1)\<rparr>
      in updateSession w1 session2 (t_update e))"

record review_result =
  res_review :: string
  res_severity :: severity
  res_sessionId :: string

definition processCodeReview ::
  "world \<Rightarrow> client \<Rightarrow> env \<Rightarrow> string \<Rightarrow> string \<Rightarrow> string option \<Rightarrow> string option \<Rightarrow>
   (error + review_result) \<times> world" where
  "processCodeReview w cl e sid code language userContext =
     (let sanitizedCode = sanitizeCode code;
          (session, sid1, w1) =
            (case getSession w sid (t_get e) of
               Inr s \<Rightarrow> (s, sid, w)
             | Inl _ \<Rightarrow>
                 (let (s, w') = createSession w (session_uuid e) (t_create e) in (s, session_id s, w')));
          is_code = isCode sanitizedCode;
          previousMessages = filter (\<lambda>msg. role msg \<noteq> System) (messages session)
      in if is_code then
           (let systemPrompt = buildSystemPrompt language;
                userPrompt = buildUserPrompt sanitizedCode userContext;
                request = [\<lparr>role = System, content = systemPrompt\<rparr>] @ previousMessages @
                          [\<lparr>role = User, content = userPrompt\<rparr>];
                w2 = w1\<lparr>calls := calls w1 @ [request]\<rparr>
            in case reviewCode cl sanitizedCode systemPrompt userPrompt previousMessages of
                 Inl err \<Rightarrow> (Inl err, w2)
               | Inr rawReview \<Rightarrow>
                   (let review = sanitizeResponse rawReview;
                        severity = extractSeverity review;
                        session1 = session\<lparr>messages := messages session @
                          [\<lparr>role = User, content = userPrompt\<rparr>,
                           \<lparr>role = Assistant, content = review\<rparr>]\<rparr>;
                        session2 = session1\<lparr>messages := keep_last_10 (messages session1)\<rparr>;
                        (session3, w3) = updateSession w2 session2 (t_update e)
                    in (Inr \<lparr>res_review = review, res_severity = severity, res_sessionId = sid1\<rparr>, w3)))
         else
           (let systemPrompt = buildChatSystemPrompt;
                userPrompt = buildChatUserPrompt sanitizedCode;
                request = [\<lparr>role = System, content = systemPrompt\<rparr>] @ previousMessages @
                          [\<lparr>role = User, content = userPrompt\<rparr>];
                w2 = w1\<lparr>calls := calls w1 @ [request]\<rparr>
            in case reviewCode cl sanitizedCode systemPrompt userPrompt previousMessages of
                 Inl err \<Rightarrow> (Inl err, w2)
               | Inr rawResponse \<Rightarrow>
                   (let review = sanitizeResponse rawResponse;
                        severity = Info;
                        session1 = session\<lparr>messages := messages session @
                          [\<lparr>role = User, content = userPrompt\<rparr>,
                           \<lparr>role = Assistant, content = review\<rparr>]\<rparr>;
                        session2 = session1\<lparr>messages := keep_last_10 (messages session1)\<rparr>;
                        (session3, w3) = updateSession w2 session2 (t_update e)
                    in (Inr \<lparr>res_review = review, res_severity = severity, res_sessionId = sid1\<rparr>, w3))))"

definition deleteSession :: "world \<Rightarrow> string \<Rightarrow> world" where
  "deleteSession w sessionId =
     (case kv w of
        None \<Rightarrow> w
      | Some k \<Rightarrow> w\<lparr>kv := Some (kv_delete k (session_key sessionId))\<rparr>)"


section \<open>Review route (routes/chat.ts)\<close>

text \<open>
  A JSON value, as \<open>c.req.json()\<close> returns it. The route reads four properties of the body;
  \<open>code\<close> is kept as the value it is, the other three are declared as strings by
  \<open>CodeReviewRequest\<close> and are modelled as present strings or absent. A body that is not an
  object has none of the properties, and reading a property of \<open>null\<close> throws.
\<close>

datatype json =
    JNull
  | JBool bool
  | JNum int
  | JStr string
  | JArr "json list"
  | JObj "(string \<times> json) list"

record review_fields =
  body_session_id :: "string option"
  body_code :: "json option"
  body_language :: "string option"
  body_context :: "string option"

datatype request_body = NullBody | Fields review_fields

record env_config =
  MAX_CODE_LENGTH :: string

text \<open>
  \<open>parseInt(text, 10)\<close>: leading white space is skipped, then an optional sign, then the
  longest run of decimal digits; \<open>NaN\<close> (here \<open>None\<close>) when the run is empty.
\<close>

definition digit_value :: "char \<Rightarrow> int" where
  "digit_value c = (case map_of (zip ''0123456789'' [0, 1, 2, 3, 4, 5, 6, 7, 8, 9]) c of
                      Some d \<Rightarrow> d | None \<Rightarrow> 0)"

definition is_digit :: "char \<Rightarrow> bool" where
  "is_digit c = (c \<in> set ''0123456789'')"

definition parseInt10 :: "string \<Rightarrow> int option" where
  "parseInt10 text =
     (let s = dropWhile is_space text;
          (sign, s1) = (case s of
                          [] \<Rightarrow> (1, s)
                        | c # cs \<Rightarrow> if c = CHR ''-'' then (- 1, cs)
                                    else if c = CHR ''+'' then (1, cs) else (1, s));
          z = takeWhile is_digit s1
      in if z = [] then None
         else Some (sign * foldl (\<lambda>a d. 10 * a + digit_value d) 0 z))"

record review_response =
  resp_session_id :: string
  resp_review :: string
  resp_severity :: severity
  resp_timestamp :: int

text \<open>
  The handler of \<open>POST /api/chat/review\<close>. A comparison with \<open>NaN\<close> is false, so an
  unreadable \<open>MAX_CODE_LENGTH\<close> sets no bound.
\<close>

definition review_handler ::
  "world \<Rightarrow> client \<Rightarrow> env \<Rightarrow> env_config \<Rightarrow> request_body \<Rightarrow> (error + review_response) \<times> world" where
  "review_handler w cl e config body =
     (case body of
        NullBody \<Rightarrow> (Inl TypeError, w)
      | Fields b \<Rightarrow>
          (case body_code b of
             None \<Rightarrow> (Inl (ValidationError CodeRequired), w)
           | Some (JStr code) \<Rightarrow>
               if code = [] then (Inl (ValidationError CodeRequired), w)
               else
                 (let maxCodeLength = parseInt10 (MAX_CODE_LENGTH config) in
                  if (case maxCodeLength of None \<Rightarrow> False | Some m \<Rightarrow> int (length code) > m)
                  then (Inl (ValidationError (CodeTooLong (the maxCodeLength))), w)
                  else if length (trim code) = 0 then (Inl (ValidationError CodeEmpty), w)
                  else
                    (let sessionId =
                       (case body_session_id b of
                          None \<Rightarrow> route_uuid e
                        | Some s \<Rightarrow> if s = [] then route_uuid e else s)
                     in case processCodeReview w cl e sessionId code
                               (body_language b) (body_context b) of
                          (Inl err, w') \<Rightarrow> (Inl err, w')
                        | (Inr result, w') \<Rightarrow>
                            (Inr \<lparr>resp_session_id = res_sessionId result,
                                  resp_review = res_review result,
                                  resp_severity = res_severity result,
                                  resp_timestamp = t_response e\<rparr>, w')))
           | Some _ \<Rightarrow> (Inl (ValidationError CodeRequired), w)))"


section \<open>Notions of the specification\<close>

text \<open>
  The specification's "case-insensitive substring scan", in its own words: some substring of
  the text equals the keyword once both are put in lower case.
\<close>

definition ci_contains :: "string \<Rightarrow> string \<Rightarrow> bool" where
  "ci_contains text kw =
     (\<exists>pre mid post. text = pre @ mid @ post \<and> toLowerCase mid = toLowerCase kw)"


text \<open>
  Observations used to state the properties of the session service: the session a turn works
  on (the one found by the lookup, or else the one created), the session document kept under
  a session's key, and the instant at which the store drops it.
\<close>

definition turn_session :: "world \<Rightarrow> env \<Rightarrow> string \<Rightarrow> session" where
  "turn_session w e sid =
     (case getSession w sid (t_get e) of
        Inr s \<Rightarrow> s
      | Inl _ \<Rightarrow> fst (createSession w (session_uuid e) (t_create e)))"

definition stored_session :: "world \<Rightarrow> string \<Rightarrow> session option" where
  "stored_session w sid =
     (case kv w of
        None \<Rightarrow> None
      | Some k \<Rightarrow> (case k (session_key sid) of Some (Json s, _) \<Rightarrow> Some s | _ \<Rightarrow> None))"

definition stored_expiry :: "world \<Rightarrow> string \<Rightarrow> int option" where
  "stored_expiry w sid =
     (case kv w of
        None \<Rightarrow> None
      | Some k \<Rightarrow> map_option snd (k (session_key sid)))"

text \<open>A run of \<open>updateSession\<close> calls on one session object, at the given instants.\<close>

fun update_all :: "world \<Rightarrow> session \<Rightarrow> int list \<Rightarrow> session \<times> world" where
  "update_all w s [] = (s, w)"
| "update_all w s (t # ts) = (let (s', w') = updateSession w s t in update_all w' s' ts)"


definition turn_world :: "world \<Rightarrow> env \<Rightarrow> string \<Rightarrow> world" where
  "turn_world w e sid =
     (case getSession w sid (t_get e) of
        Inr s \<Rightarrow> w
      | Inl _ \<Rightarrow> snd (createSession w (session_uuid e) (t_create e)))"

text \<open>The prompts of a turn and the request it sends to the completion API.\<close>

definition turn_prompts :: "string \<Rightarrow> string option \<Rightarrow> string option \<Rightarrow> string \<times> string" where
  "turn_prompts code language userContext =
     (if isCode (sanitizeCode code)
      then (buildSystemPrompt language, buildUserPrompt (sanitizeCode code) userContext)
      else (buildChatSystemPrompt, buildChatUserPrompt (sanitizeCode code)))"

definition turn_request ::
  "world \<Rightarrow> env \<Rightarrow> string \<Rightarrow> string \<Rightarrow> string option \<Rightarrow> string option \<Rightarrow> chat_message list" where
  "turn_request w e sid code language userContext =
     [\<lparr>role = System, content = fst (turn_prompts code language userContext)\<rparr>] @
     filter (\<lambda>msg. role msg \<noteq> System) (messages (turn_session w e sid)) @
     [\<lparr>role = User, content = snd (turn_prompts code language userContext)\<rparr>]"


text \<open>
  Example values: a stored session with ten messages, a world holding it, a world without a
  namespace (the development server), clock readings, and a completion API that always
  answers with the same text.
\<close>

definition ten_messages :: "chat_message list" where
  "ten_messages = map (\<lambda>c. \<lparr>role = User, content = [c]\<rparr>) ''0123456789''"

definition example_session :: session where
  "example_session =
     \<lparr>session_id = ''abc'', messages = ten_messages, created_at = 0, updated_at = 0,
      expires_at = 3600000\<rparr>"

definition example_world :: world where
  "example_world =
     \<lparr>kv = Some [session_key ''abc'' \<mapsto> (Json example_session, 3600000)], calls = []\<rparr>"

definition dev_world :: world where
  "dev_world = \<lparr>kv = None, calls = []\<rparr>"

definition example_env :: env where
  "example_env =
     \<lparr>route_uuid = ''u1'', session_uuid = ''u2'', t_get = 1000, t_create = 1001,
      t_update = 5000, t_response = 5001\<rparr>"

definition example_client :: client where
  "example_client = (\<lambda>msgs. Choices [Some ''This is critical.''])"


text \<open>
  The specification's condition for a rejected request: the \<open>code\<close> property is missing, is
  not a string, is empty once trimmed, or is longer than the configured maximum.
\<close>

definition code_invalid :: "env_config \<Rightarrow> review_fields \<Rightarrow> bool" where
  "code_invalid config b =
     (body_code b = None \<or>
      (\<exists>j. body_code b = Some j \<and> (\<forall>c. j \<noteq> JStr c)) \<or>
      (\<exists>c. body_code b = Some (JStr c) \<and>
           (trim c = [] \<or>
            (\<exists>m. parseInt10 (MAX_CODE_LENGTH config) = Some m \<and> int (length c) > m))))"


text \<open>
  The specification's "script block" and "iframe block", without patterns. A text starts
  with a literal, letter case aside (\<open>starts_ci\<close>); \<open>after_first_ci\<close> is what follows the
  first occurrence of a literal; a block of a tag starts at the head of a text when the text
  starts with \<open><tag\<close> at a word boundary and a closing \<open></tag>\<close> follows somewhere, and
  the block ends with the first closing tag (\<open>block_end\<close> is the text behind the block).
  \<open>strip_blocks\<close> copies a text and puts the marker in place of every block it meets.
\<close>

definition starts_ci :: "string \<Rightarrow> string \<Rightarrow> bool" where
  "starts_ci s l =
     (length l \<le> length s \<and> map ascii_upper (take (length l) s) = map ascii_upper l)"

fun after_first_ci :: "string \<Rightarrow> string \<Rightarrow> string option" where
  "after_first_ci l [] = (if l = [] then Some [] else None)"
| "after_first_ci l (x # xs) =
     (if starts_ci (x # xs) l then Some (drop (length l) (x # xs)) else after_first_ci l xs)"

definition block_end :: "string \<Rightarrow> string \<Rightarrow> string option" where
  "block_end tag s =
     (let n = length (''<'' @ tag) in
      if starts_ci s (''<'' @ tag) \<and> at_boundary (Some (last (take n s))) (drop n s)
      then after_first_ci (''</'' @ tag @ ''>'') (drop n s)
      else None)"

function strip_blocks :: "string \<Rightarrow> string \<Rightarrow> string \<Rightarrow> string" where
  "strip_blocks tag marker [] = []"
| "strip_blocks tag marker (x # xs) =
     (case block_end tag (x # xs) of
        None \<Rightarrow> x # strip_blocks tag marker xs
      | Some rest \<Rightarrow>
          if length rest < length (x # xs) then marker @ strip_blocks tag marker rest
          else x # strip_blocks tag marker xs)"
  by pat_completeness auto
termination
  by (relation "measure (\<lambda>(tag, marker, s). length s)") auto


text \<open>
  Two notions for reasoning about the matcher: the code unit before a position once the
  text \<open>u\<close> has been consumed, and "no occurrence of the literal starts inside \<open>u\<close>" (when
  \<open>u\<close> is followed by \<open>rest\<close>).
\<close>

definition after :: "char option \<Rightarrow> string \<Rightarrow> char option" where
  "after p u = (if u = [] then p else Some (last u))"

definition clear :: "string \<Rightarrow> string \<Rightarrow> string \<Rightarrow> bool" where
  "clear l u rest = (\<forall>i < length u. \<not> starts_ci (drop i (u @ rest)) l)"


definition contains_ci :: "string \<Rightarrow> string \<Rightarrow> bool" where
  "contains_ci s l = (after_first_ci l s \<noteq> None)"


text \<open>
  The specification's escaping of the five HTML-significant characters, and the markup of a
  fenced code block with language \<open>lang\<close> whose (trimmed) body is \<open>code\<close>.
\<close>

definition escape_unit :: "char \<Rightarrow> string" where
  "escape_unit c =
     (if c = CHR ''&'' then ''&amp;''
      else if c = CHR ''<'' then ''&lt;''
      else if c = CHR ''>'' then ''&gt;''
      else if c = CHR 0x22 then ''&quot;''
      else if c = CHR 0x27 then ''&#039;''
      else [c])"

definition escape_text :: "string \<Rightarrow> string" where
  "escape_text s = concat (map escape_unit s)"

definition code_block_html :: "string \<Rightarrow> string \<Rightarrow> string" where
  \<open>code_block_html lang code =
     ''<pre><code class="language-'' @ (if lang = [] then ''text'' else lang) @ ''">'' @
     escape_text code @ ''</code></pre>''\<close>


text \<open>
  The three strong shapes of the classifier, in the specification's words. A word edge: the
  text before does not end with a word character, the text behind does not start with one.
  \<open>sql_shape\<close>, the shape of a complete SQL statement: one of the words \<open>SELECT\<close>, \<open>INSERT\<close>,
  \<open>UPDATE\<close>, \<open>DELETE\<close> and, somewhere behind it, one of \<open>FROM\<close>, \<open>INTO\<close>, \<open>SET\<close>, \<open>WHERE\<close>,
  each in any letter case and between word edges. \<open>decl_header\<close>, a declaration header:
  \<open>function\<close>, \<open>def\<close> or \<open>async function\<close> after a word edge, white space, a name of word
  characters, white space or none, an opening parenthesis. \<open>paired_tag\<close>, a paired tag: an
  opening tag \<open><name ...>\<close> and, somewhere behind it, a closing tag \<open></name>\<close> (the two names
  need not be equal).
\<close>

definition ends_word :: "string \<Rightarrow> bool" where
  "ends_word s = (s \<noteq> [] \<and> is_word (last s))"

definition starts_word :: "string \<Rightarrow> bool" where
  "starts_word s = (s \<noteq> [] \<and> is_word (hd s))"

definition sql_shape :: "string \<Rightarrow> bool" where
  "sql_shape s =
     (\<exists>a x b y c. s = a @ x @ b @ y @ c \<and>
        map ascii_upper x \<in> set [''SELECT'', ''INSERT'', ''UPDATE'', ''DELETE''] \<and>
        map ascii_upper y \<in> set [''FROM'', ''INTO'', ''SET'', ''WHERE''] \<and>
        \<not> ends_word a \<and> \<not> starts_word (b @ y @ c) \<and>
        \<not> ends_word (a @ x @ b) \<and> \<not> starts_word c)"

definition decl_header :: "string \<Rightarrow> bool" where
  "decl_header s =
     (\<exists>a k sp name sp' c. s = a @ k @ sp @ name @ sp' @ CHR ''('' # c \<and>
        \<not> ends_word a \<and>
        (k = ''function'' \<or> k = ''def'' \<or>
         (\<exists>ws. k = ''async'' @ ws @ ''function'' \<and> ws \<noteq> [] \<and> (\<forall>x \<in> set ws. is_space x))) \<and>
        sp \<noteq> [] \<and> (\<forall>x \<in> set sp. is_space x) \<and>
        name \<noteq> [] \<and> (\<forall>x \<in> set name. is_word x) \<and>
        (\<forall>x \<in> set sp'. is_space x))"

definition paired_tag :: "string \<Rightarrow> bool" where
  "paired_tag s =
     (\<exists>a w b c w2 d. s = a @ CHR ''<'' # w @ b @ CHR ''>'' # c @ ''</'' @ w2 @ CHR ''>'' # d \<and>
        w \<noteq> [] \<and> (\<forall>x \<in> set w. is_word x) \<and> CHR ''>'' \<notin> set b \<and>
        w2 \<noteq> [] \<and> (\<forall>x \<in> set w2. is_word x))"


section \<open>Rate limiter: properties\<close>

lemma check_fresh:
  "(store rl i = None \<and> i \<notin> set object_prototype_names) \<or>
   (\<exists>e. store rl i = Some e \<and> js_gt (Num now) (resetAt e)) \<Longrightarrow>
   check rl i now =
     (rl\<lparr>store := (store rl)(i \<mapsto> \<lparr>count = Num 1, resetAt = js_add (Num now) (windowMs rl)\<rparr>)\<rparr>,
      \<lparr>allowed = True, remaining = js_sub (limit rl) (Num 1),
       res_resetAt = Some (js_add (Num now) (windowMs rl))\<rparr>)"
  by (auto simp: check_def lookup_def fresh_entry_def)

lemma check_within:
  "store rl i = Some e \<Longrightarrow> \<not> js_gt (Num now) (resetAt e) \<Longrightarrow>
   check rl i now =
     (rl\<lparr>store := (store rl)(i \<mapsto> e\<lparr>count := js_add (count e) (Num 1)\<rparr>)\<rparr>,
      \<lparr>allowed = js_le (js_add (count e) (Num 1)) (limit rl),
       remaining = js_max0 (js_sub (limit rl) (js_add (count e) (Num 1))),
       res_resetAt = Some (resetAt e)\<rparr>)"
  by (simp add: check_def lookup_def Let_def)

text \<open>
  An identifier that names a member of \<open>Object.prototype\<close> never gets an entry: every call is
  refused, whatever the limit, and the result has no \<open>resetAt\<close>.
\<close>

lemma js_incr_NaN: "inherited_count rl i \<in> {None, Some NaN} \<Longrightarrow> js_incr (inherited_count rl i) = NaN"
  by (cases "inherited_count rl i") auto

lemma check_inherited:
  assumes "i \<in> set object_prototype_names" "store rl i = None"
    and "inherited_count rl i \<in> {None, Some NaN}"
  shows "check rl i now =
     (rl\<lparr>proto_count := (proto_count rl)(i \<mapsto> NaN)\<rparr>,
      \<lparr>allowed = False, remaining = NaN, res_resetAt = None\<rparr>)"
proof -
  have l: "lookup rl i = Inherited" using assms by (simp add: lookup_def)
  have n: "js_incr (inherited_count rl i) = NaN" using assms(3) by (rule js_incr_NaN)
  have s: "js_sub (limit rl) NaN = NaN" by (cases "limit rl") simp_all
  have a: "\<not> js_le NaN (limit rl)" by simp
  show ?thesis by (simp add: check_def l n s Let_def)
qed

text \<open>A call for another identifier leaves the entry of this one alone.\<close>

lemma check_other:
  "j \<noteq> i \<Longrightarrow> store (fst (check rl j now)) i = store rl i"
  by (simp add: check_def lookup_def fresh_entry_def Let_def split: option.splits)

lemma check_plain_identifier:
  "((store rl i = None \<and> i \<notin> set object_prototype_names) \<or>
    (\<exists>e. store rl i = Some e \<and> js_gt (Num now) (resetAt e)) \<longrightarrow>
      check rl i now =
        (rl\<lparr>store := (store rl)(i \<mapsto> \<lparr>count = Num 1, resetAt = js_add (Num now) (windowMs rl)\<rparr>)\<rparr>,
         \<lparr>allowed = True, remaining = js_sub (limit rl) (Num 1),
          res_resetAt = Some (js_add (Num now) (windowMs rl))\<rparr>))
   \<and> (\<forall>e. store rl i = Some e \<and> \<not> js_gt (Num now) (resetAt e) \<longrightarrow>
      check rl i now =
        (rl\<lparr>store := (store rl)(i \<mapsto> e\<lparr>count := js_add (count e) (Num 1)\<rparr>)\<rparr>,
         \<lparr>allowed = js_le (js_add (count e) (Num 1)) (limit rl),
          remaining = js_max0 (js_sub (limit rl) (js_add (count e) (Num 1))),
          res_resetAt = Some (resetAt e)\<rparr>))
   \<and> (\<forall>t1 t2 t3 t4 t5 t6 t7.
        i \<notin> set object_prototype_names \<and>
        (\<forall>t\<in>set [t2, t3, t4, t5, t6]. \<not> t > t1 + 60 * 1000) \<and> t7 > t1 + 60 * 1000 \<longrightarrow>
        map (\<lambda>r. (allowed r, remaining r))
          (snd (checks (new_RateLimiter (Num 5) (Num 60)) i [t1, t2, t3, t4, t5, t6, t7])) =
        [(True, Num 4), (True, Num 3), (True, Num 2), (True, Num 1), (True, Num 0),
         (False, Num 0), (True, Num 4)])"
proof (intro conjI allI impI)
  assume "(store rl i = None \<and> i \<notin> set object_prototype_names) \<or>
    (\<exists>e. store rl i = Some e \<and> js_gt (Num now) (resetAt e))"
  then show "check rl i now =
        (rl\<lparr>store := (store rl)(i \<mapsto> \<lparr>count = Num 1, resetAt = js_add (Num now) (windowMs rl)\<rparr>)\<rparr>,
         \<lparr>allowed = True, remaining = js_sub (limit rl) (Num 1),
          res_resetAt = Some (js_add (Num now) (windowMs rl))\<rparr>)"
    by (rule check_fresh)
next
  fix e assume "store rl i = Some e \<and> \<not> js_gt (Num now) (resetAt e)"
  then show "check rl i now =
        (rl\<lparr>store := (store rl)(i \<mapsto> e\<lparr>count := js_add (count e) (Num 1)\<rparr>)\<rparr>,
         \<lparr>allowed = js_le (js_add (count e) (Num 1)) (limit rl),
          remaining = js_max0 (js_sub (limit rl) (js_add (count e) (Num 1))),
          res_resetAt = Some (resetAt e)\<rparr>)"
    by (simp add: check_within)
next
  fix t1 t2 t3 t4 t5 t6 t7 :: int
  assume a: "i \<notin> set object_prototype_names \<and>
    (\<forall>t\<in>set [t2, t3, t4, t5, t6]. \<not> t > t1 + 60 * 1000) \<and> t7 > t1 + 60 * 1000"
  then show "map (\<lambda>r. (allowed r, remaining r))
          (snd (checks (new_RateLimiter (Num 5) (Num 60)) i [t1, t2, t3, t4, t5, t6, t7])) =
        [(True, Num 4), (True, Num 3), (True, Num 2), (True, Num 1), (True, Num 0),
         (False, Num 0), (True, Num 4)]"
    by (simp add: new_RateLimiter_def check_def lookup_def fresh_entry_def Let_def)
qed

text \<open>
  C1. The first call for the identifier \<open>toString\<close> with \<open>N = 5\<close> and a window of 60 seconds:
  no entry exists for it, yet the call installs none and returns
  \<open>(allowed = false, remaining = NaN, resetAt = undefined)\<close>; so does every later call.
\<close>

theorem check_inherited_name:
  "check (new_RateLimiter (Num 5) (Num 60)) ''toString'' 1000 =
     ((new_RateLimiter (Num 5) (Num 60))\<lparr>proto_count := [''toString'' \<mapsto> NaN]\<rparr>,
      \<lparr>allowed = False, remaining = NaN, res_resetAt = None\<rparr>)
   \<and> store (fst (check (new_RateLimiter (Num 5) (Num 60)) ''toString'' 1000)) ''toString'' = None
   \<and> map (\<lambda>r. (allowed r, remaining r, res_resetAt r))
       (snd (checks (new_RateLimiter (Num 5) (Num 60)) ''__proto__'' [1000, 2000, 70000])) =
     [(False, NaN, None), (False, NaN, None), (False, NaN, None)]"
  by (simp add: new_RateLimiter_def check_def lookup_def inherited_count_def
        object_prototype_names_def Let_def)


section \<open>Context service: severity\<close>

lemma startsWith_iff: "startsWith s pre \<longleftrightarrow> (\<exists>post. s = pre @ post)"
  unfolding startsWith_def
  by (metis append_eq_conv_conj append_take_drop_id)

lemma str_includes_iff: "str_includes s sub \<longleftrightarrow> (\<exists>pre post. s = pre @ sub @ post)"
proof (induction s)
  case Nil
  then show ?case by auto
next
  case (Cons x xs)
  show ?case
  proof
    assume "str_includes (x # xs) sub"
    then consider "startsWith (x # xs) sub" | "str_includes xs sub" by auto
    then show "\<exists>pre post. x # xs = pre @ sub @ post"
    proof cases
      case 1
      then obtain post where "x # xs = sub @ post" by (auto simp: startsWith_iff)
      then have "x # xs = [] @ sub @ post" by simp
      then show ?thesis by blast
    next
      case 2
      then obtain pre post where "xs = pre @ sub @ post" using Cons.IH by auto
      then have "x # xs = (x # pre) @ sub @ post" by simp
      then show ?thesis by blast
    qed
  next
    assume "\<exists>pre post. x # xs = pre @ sub @ post"
    then obtain pre post where e: "x # xs = pre @ sub @ post" by auto
    show "str_includes (x # xs) sub"
    proof (cases pre)
      case Nil
      then have "startsWith (x # xs) sub" using e unfolding startsWith_iff by auto
      then show ?thesis by simp
    next
      case (Cons y ys)
      then have "xs = ys @ sub @ post" using e by simp
      then show ?thesis using Cons.IH by auto
    qed
  qed
qed

text \<open>
  Searching the lower-cased text for a keyword that is already in lower case is the
  case-insensitive search of the specification.
\<close>

lemma includes_lower_iff:
  assumes kw: "toLowerCase kw = kw"
  shows "str_includes (toLowerCase text) kw \<longleftrightarrow> ci_contains text kw"
proof
  assume "str_includes (toLowerCase text) kw"
  then obtain pre post where e: "map toLowerCase_unit text = pre @ kw @ post"
    by (auto simp: str_includes_iff toLowerCase_def)
  let ?a = "take (length pre) text"
  let ?m = "take (length kw) (drop (length pre) text)"
  let ?p = "drop (length kw) (drop (length pre) text)"
  have t: "text = ?a @ ?m @ ?p" by (simp only: append_take_drop_id)
  have "map toLowerCase_unit ?m = take (length kw) (drop (length pre) (map toLowerCase_unit text))"
    by (simp add: take_map drop_map)
  also have "\<dots> = kw" by (simp add: e)
  finally have "toLowerCase ?m = toLowerCase kw" unfolding kw by (simp only: toLowerCase_def)
  with t show "ci_contains text kw" unfolding ci_contains_def by blast
next
  assume "ci_contains text kw"
  then obtain pre mid post where t: "text = pre @ mid @ post"
    and m: "toLowerCase mid = toLowerCase kw"
    unfolding ci_contains_def by blast
  have "toLowerCase text = toLowerCase pre @ kw @ toLowerCase post"
    using m unfolding kw by (simp add: t toLowerCase_def)
  then show "str_includes (toLowerCase text) kw"
    unfolding str_includes_iff by blast
qed

lemma keywords_lower:
  "toLowerCase ''critical'' = ''critical''"
  "toLowerCase ''security vulnerability'' = ''security vulnerability''"
  "toLowerCase ''sql injection'' = ''sql injection''"
  "toLowerCase ''xss'' = ''xss''"
  "toLowerCase ''warning'' = ''warning''"
  "toLowerCase ''bug'' = ''bug''"
  "toLowerCase ''issue'' = ''issue''"
  by code_simp+

text \<open>
  C3. \<open>extractSeverity\<close> scans without regard to case and returns \<open>critical\<close> when the text
  contains one of "critical", "security vulnerability", "sql injection", "xss"; otherwise
  \<open>warning\<close> when it contains one of "warning", "bug", "issue"; otherwise \<open>info\<close>. The
  critical keywords win: a text with a critical keyword and a warning keyword is \<open>critical\<close>.
\<close>

theorem extractSeverity_spec:
  "extractSeverity response =
     (if \<exists>kw \<in> set [''critical'', ''security vulnerability'', ''sql injection'', ''xss''].
           ci_contains response kw then Critical
      else if \<exists>kw \<in> set [''warning'', ''bug'', ''issue'']. ci_contains response kw then Warning
      else Info)
   \<and> ((\<exists>kw \<in> set [''critical'', ''security vulnerability'', ''sql injection'', ''xss''].
          ci_contains response kw) \<and>
       (\<exists>kw \<in> set [''warning'', ''bug'', ''issue'']. ci_contains response kw)
       \<longrightarrow> extractSeverity response = Critical)"
  by (simp add: extractSeverity_def Let_def includes_lower_iff keywords_lower)

theorem extractSeverity_spec_witness:
  "ci_contains ''SQL injection found; warning: unused var'' ''sql injection''
   \<and> ci_contains ''SQL injection found; warning: unused var'' ''warning''
   \<and> extractSeverity ''SQL injection found; warning: unused var'' = Critical
   \<and> extractSeverity ''warning: unused var'' = Warning
   \<and> extractSeverity ''looks fine to me'' = Info"
proof -
  let ?t = "''SQL injection found; warning: unused var''"
  have c: "ci_contains ?t ''sql injection''"
    unfolding includes_lower_iff [OF keywords_lower(3), symmetric] by code_simp
  have w: "ci_contains ?t ''warning''"
    unfolding includes_lower_iff [OF keywords_lower(5), symmetric] by code_simp
  have 1: "extractSeverity ?t = Critical"
    using extractSeverity_spec [of ?t] c w by simp
  have n: "\<not> ci_contains ''warning: unused var'' kw"
    if "kw \<in> set [''critical'', ''security vulnerability'', ''sql injection'', ''xss'']" for kw
  proof -
    have "\<not> str_includes (toLowerCase ''warning: unused var'') ''critical''"
      "\<not> str_includes (toLowerCase ''warning: unused var'') ''security vulnerability''"
      "\<not> str_includes (toLowerCase ''warning: unused var'') ''sql injection''"
      "\<not> str_includes (toLowerCase ''warning: unused var'') ''xss''"
      by code_simp+
    then show ?thesis using that by (auto simp: includes_lower_iff keywords_lower)
  qed
  have y: "ci_contains ''warning: unused var'' ''warning''"
    unfolding includes_lower_iff [OF keywords_lower(5), symmetric] by code_simp
  have 2: "extractSeverity ''warning: unused var'' = Warning"
    using extractSeverity_spec [of "''warning: unused var''"] n y by auto
  have m: "\<not> ci_contains ''looks fine to me'' kw"
    if "kw \<in> set [''critical'', ''security vulnerability'', ''sql injection'', ''xss'',
                   ''warning'', ''bug'', ''issue'']" for kw
  proof -
    have "\<not> str_includes (toLowerCase ''looks fine to me'') ''critical''"
      "\<not> str_includes (toLowerCase ''looks fine to me'') ''security vulnerability''"
      "\<not> str_includes (toLowerCase ''looks fine to me'') ''sql injection''"
      "\<not> str_includes (toLowerCase ''looks fine to me'') ''xss''"
      "\<not> str_includes (toLowerCase ''looks fine to me'') ''warning''"
      "\<not> str_includes (toLowerCase ''looks fine to me'') ''bug''"
      "\<not> str_includes (toLowerCase ''looks fine to me'') ''issue''"
      by code_simp+
    then show ?thesis using that by (auto simp: includes_lower_iff keywords_lower)
  qed
  have 3: "extractSeverity ''looks fine to me'' = Info"
    using extractSeverity_spec [of "''looks fine to me''"] m by auto
  from c w 1 2 3 show ?thesis by blast
qed


section \<open>Session service: properties\<close>

lemma keep_last_10_drop: "keep_last_10 ms = drop (length ms - 10) ms"
  by (simp add: keep_last_10_def)

lemma keep_last_10_length: "length (keep_last_10 ms) \<le> 10"
  by (simp add: keep_last_10_def)

lemma updateSession_Some:
  "kv w = Some k \<Longrightarrow>
   updateSession w s now =
     (s\<lparr>updated_at := now\<rparr>,
      w\<lparr>kv := Some (k(session_key (session_id s) \<mapsto> (Json (s\<lparr>updated_at := now\<rparr>), now + 3600 * 1000)))\<rparr>)"
  by (simp add: updateSession_def Let_def kv_put_def sessionTTL_def)

lemma updateSession_None: "kv w = None \<Longrightarrow> updateSession w s now = (s, w)"
  by (simp add: updateSession_def)

lemma updateSession_messages: "messages (fst (updateSession w s now)) = messages s"
  by (cases "kv w") (auto simp: updateSession_Some updateSession_None)

lemma updateSession_session_id: "session_id (fst (updateSession w s now)) = session_id s"
  by (cases "kv w") (auto simp: updateSession_Some updateSession_None)

lemma updateSession_stored:
  "kv w \<noteq> None \<Longrightarrow>
   stored_session (snd (updateSession w s now)) (session_id s) = Some (fst (updateSession w s now))"
  by (auto simp: updateSession_Some stored_session_def)

lemma createSession_kv: "(kv (snd (createSession w u t)) = None) = (kv w = None)"
  by (simp add: createSession_def Let_def split: option.splits)

lemma turn_world_kv: "(kv (turn_world w e sid) = None) = (kv w = None)"
  by (simp add: turn_world_def createSession_kv split: sum.splits)

lemma addMessage_unfold:
  "addMessage w e sid r text =
     updateSession (turn_world w e sid)
       ((turn_session w e sid)\<lparr>messages :=
          keep_last_10 (messages (turn_session w e sid) @ [\<lparr>role = r, content = text\<rparr>])\<rparr>)
       (t_update e)"
  by (simp add: addMessage_def turn_world_def turn_session_def Let_def
      split: sum.splits prod.splits)

lemma processCodeReview_unfold:
  "processCodeReview w cl e sid code language userContext =
     (let s = turn_session w e sid;
          w2 = (turn_world w e sid)\<lparr>calls := calls (turn_world w e sid) @
                  [turn_request w e sid code language userContext]\<rparr>
      in case chatCompletion cl (turn_request w e sid code language userContext) of
           Inl err \<Rightarrow> (Inl err, w2)
         | Inr raw \<Rightarrow>
             (Inr \<lparr>res_review = sanitizeResponse raw,
                   res_severity = (if isCode (sanitizeCode code)
                                   then extractSeverity (sanitizeResponse raw) else Info),
                   res_sessionId = (case getSession w sid (t_get e) of
                                      Inr _ \<Rightarrow> sid | Inl _ \<Rightarrow> session_uuid e)\<rparr>,
              snd (updateSession w2
                (s\<lparr>messages := keep_last_10 (messages s @
                     [\<lparr>role = User, content = snd (turn_prompts code language userContext)\<rparr>,
                      \<lparr>role = Assistant, content = sanitizeResponse raw\<rparr>])\<rparr>)
                (t_update e))))"
proof -
  let ?sid1 = "case getSession w sid (t_get e) of Inr _ \<Rightarrow> sid | Inl _ \<Rightarrow> session_uuid e"
  have trip: "(case getSession w sid (t_get e) of
               Inr s \<Rightarrow> (s, sid, w)
             | Inl _ \<Rightarrow>
                 (let (s, w') = createSession w (session_uuid e) (t_create e) in (s, session_id s, w')))
     = (turn_session w e sid, ?sid1, turn_world w e sid)"
    by (cases "getSession w sid (t_get e)")
       (simp_all add: turn_session_def turn_world_def createSession_def Let_def split: option.splits)
  show ?thesis
  proof (cases "isCode (sanitizeCode code)")
    case True
    then show ?thesis
      unfolding processCodeReview_def trip
      by (cases "chatCompletion cl (turn_request w e sid code language userContext)")
         (simp_all add: Let_def reviewCode_def turn_request_def turn_prompts_def split: prod.splits)
  next
    case False
    then show ?thesis
      unfolding processCodeReview_def trip
      by (cases "chatCompletion cl (turn_request w e sid code language userContext)")
         (simp_all add: Let_def reviewCode_def turn_request_def turn_prompts_def split: prod.splits)
  qed
qed


lemma drop_eleventh:
  "length xs = 11 \<Longrightarrow> length (drop (length xs - 10) xs) = 10 \<and> drop (length xs - 10) xs = tl xs"
  by (cases xs) auto

text \<open>
  C5. Every operation that appends messages leaves at most ten: \<open>addMessage\<close> returns (and,
  with a namespace, stores) the session whose messages are the last ten of the old ones
  followed by the new one, and a successful \<open>processCodeReview\<close> stores the session whose
  messages are the last ten of the old ones followed by the user and the assistant message
  of the turn. What is kept is a suffix of the extended sequence, so the oldest go first and
  the order is unchanged; an eleventh message leaves exactly ten.
\<close>

theorem message_cap:
  "(\<forall>s' w'. addMessage w e sid r msg = (s', w') \<longrightarrow>
      (let all = messages (turn_session w e sid) @ [\<lparr>role = r, content = msg\<rparr>] in
       messages s' = drop (length all - 10) all \<and> length (messages s') \<le> 10 \<and>
       (length all = 11 \<longrightarrow> length (messages s') = 10 \<and> messages s' = tl all) \<and>
       (kv w \<noteq> None \<longrightarrow> stored_session w' (session_id s') = Some s')))
   \<and> (\<forall>res w'. processCodeReview w cl e sid code language userContext = (Inr res, w') \<and>
         kv w \<noteq> None \<longrightarrow>
      (\<exists>s'. let all = messages (turn_session w e sid) @
                 [\<lparr>role = User, content = snd (turn_prompts code language userContext)\<rparr>,
                  \<lparr>role = Assistant, content = res_review res\<rparr>] in
        stored_session w' (session_id (turn_session w e sid)) = Some s' \<and>
        messages s' = drop (length all - 10) all \<and> length (messages s') \<le> 10 \<and>
        (length all > 10 \<longrightarrow> length (messages s') = 10)))"
proof (intro conjI allI impI)
  fix s' w'
  assume a: "addMessage w e sid r msg = (s', w')"
  let ?s = "turn_session w e sid"
  let ?all = "messages ?s @ [\<lparr>role = r, content = msg\<rparr>]"
  let ?s2 = "?s\<lparr>messages := keep_last_10 ?all\<rparr>"
  have u: "updateSession (turn_world w e sid) ?s2 (t_update e) = (s', w')"
    using a by (simp add: addMessage_unfold)
  have m: "messages s' = drop (length ?all - 10) ?all"
    using updateSession_messages [of "turn_world w e sid" ?s2 "t_update e"] u
    by (simp add: keep_last_10_drop)
  have l: "length (messages s') \<le> 10" unfolding m by simp
  have e11: "length (messages s') = 10 \<and> messages s' = tl ?all" if "length ?all = 11"
    unfolding m using drop_eleventh [OF that] by blast
  have st: "stored_session w' (session_id s') = Some s'" if "kv w \<noteq> None"
  proof -
    have "kv (turn_world w e sid) \<noteq> None" using that by (simp add: turn_world_kv)
    from updateSession_stored [OF this, of ?s2 "t_update e"]
      updateSession_session_id [of "turn_world w e sid" ?s2 "t_update e"]
    show ?thesis by (simp add: u)
  qed
  show "let all = ?all in
       messages s' = drop (length all - 10) all \<and> length (messages s') \<le> 10 \<and>
       (length all = 11 \<longrightarrow> length (messages s') = 10 \<and> messages s' = tl all) \<and>
       (kv w \<noteq> None \<longrightarrow> stored_session w' (session_id s') = Some s')"
    unfolding Let_def using m l e11 st by blast
next
  fix res w'
  assume a: "processCodeReview w cl e sid code language userContext = (Inr res, w') \<and> kv w \<noteq> None"
  let ?s = "turn_session w e sid"
  let ?req = "turn_request w e sid code language userContext"
  let ?w2 = "(turn_world w e sid)\<lparr>calls := calls (turn_world w e sid) @ [?req]\<rparr>"
  obtain raw where c: "chatCompletion cl ?req = Inr raw"
    using a by (cases "chatCompletion cl ?req") (auto simp: processCodeReview_unfold Let_def)
  let ?all = "messages ?s @
                 [\<lparr>role = User, content = snd (turn_prompts code language userContext)\<rparr>,
                  \<lparr>role = Assistant, content = res_review res\<rparr>]"
  let ?s2 = "?s\<lparr>messages := keep_last_10 ?all\<rparr>"
  have r: "res_review res = sanitizeResponse raw"
    and w': "w' = snd (updateSession ?w2 ?s2 (t_update e))"
    using a c by (auto simp: processCodeReview_unfold Let_def)
  have k: "kv ?w2 \<noteq> None" using a by (simp add: turn_world_kv)
  let ?s' = "fst (updateSession ?w2 ?s2 (t_update e))"
  have st: "stored_session w' (session_id ?s) = Some ?s'"
    using updateSession_stored [OF k, of ?s2 "t_update e"] by (simp add: w')
  have m: "messages ?s' = drop (length ?all - 10) ?all"
    by (simp only: updateSession_messages) (simp add: keep_last_10_drop)
  have l: "length (messages ?s') \<le> 10" unfolding m by simp
  have g: "length (messages ?s') = 10" if "length ?all > 10"
    unfolding m using that by simp
  show "\<exists>s'. let all = ?all in
        stored_session w' (session_id ?s) = Some s' \<and>
        messages s' = drop (length all - 10) all \<and> length (messages s') \<le> 10 \<and>
        (length all > 10 \<longrightarrow> length (messages s') = 10)"
    unfolding Let_def using st m l g by blast
qed


lemma example_turn_session [simp]:
  "turn_session example_world example_env ''abc'' = example_session"
  by (simp add: turn_session_def getSession_def example_world_def example_env_def kv_get_def
      safeJsonParse_def)

lemma example_completion [simp]: "chatCompletion example_client msgs = Inr ''This is critical.''"
  by (simp add: chatCompletion_def example_client_def)

theorem message_cap_witness:
  "messages (fst (addMessage example_world example_env ''abc'' Assistant ''x'')) =
     tl ten_messages @ [\<lparr>role = Assistant, content = ''x''\<rparr>]
   \<and> length (messages (fst (addMessage example_world example_env ''abc'' Assistant ''x''))) = 10
   \<and> (\<exists>s'. stored_session
              (snd (processCodeReview example_world example_client example_env ''abc'' ''hello''
                      None None)) ''abc'' = Some s'
          \<and> length (messages s') = 10
          \<and> take 8 (messages s') = drop 2 ten_messages)"
proof -
  let ?am = "addMessage example_world example_env ''abc'' Assistant ''x''"
  let ?pc = "processCodeReview example_world example_client example_env ''abc'' ''hello''
                      None None"
  note t = message_cap [where w = example_world and e = example_env and sid = "''abc''"
      and r = Assistant and msg = "''x''" and cl = example_client and code = "''hello''"
      and language = None and userContext = None]
  have l: "length ten_messages = 10" by (simp add: ten_messages_def)
  have a: "?am = (fst ?am, snd ?am)" by simp
  from t a have
    "let all = messages (turn_session example_world example_env ''abc'') @
               [\<lparr>role = Assistant, content = ''x''\<rparr>] in
       messages (fst ?am) = drop (length all - 10) all \<and> length (messages (fst ?am)) \<le> 10 \<and>
       (length all = 11 \<longrightarrow> length (messages (fst ?am)) = 10 \<and> messages (fst ?am) = tl all) \<and>
       (kv example_world \<noteq> None \<longrightarrow> stored_session (snd ?am) (session_id (fst ?am)) = Some (fst ?am))"
    by blast
  then have 1: "messages (fst ?am) = tl ten_messages @ [\<lparr>role = Assistant, content = ''x''\<rparr>]"
    and 2: "length (messages (fst ?am)) = 10"
    by (simp_all add: Let_def example_session_def l) (simp_all add: ten_messages_def)
  obtain res where p: "?pc = (Inr res, snd ?pc)"
    by (cases ?pc) (auto simp: processCodeReview_unfold Let_def)
  have k: "kv example_world \<noteq> None" by (simp add: example_world_def)
  from t p k have "\<exists>s'. let all = messages (turn_session example_world example_env ''abc'') @
                 [\<lparr>role = User, content = snd (turn_prompts ''hello'' None None)\<rparr>,
                  \<lparr>role = Assistant, content = res_review res\<rparr>] in
        stored_session (snd ?pc) (session_id (turn_session example_world example_env ''abc'')) = Some s' \<and>
        messages s' = drop (length all - 10) all \<and> length (messages s') \<le> 10 \<and>
        (length all > 10 \<longrightarrow> length (messages s') = 10)"
    by blast
  then obtain s' where "stored_session (snd ?pc) ''abc'' = Some s'"
    and "messages s' = drop 2 (ten_messages @
                 [\<lparr>role = User, content = snd (turn_prompts ''hello'' None None)\<rparr>,
                  \<lparr>role = Assistant, content = res_review res\<rparr>])"
    and "length (messages s') = 10"
    by (auto simp: Let_def example_session_def l)
  then have 3: "\<exists>s'. stored_session (snd ?pc) ''abc'' = Some s' \<and> length (messages s') = 10
          \<and> take 8 (messages s') = drop 2 ten_messages"
    by (simp add: l)
  from 1 2 3 show ?thesis by blast
qed


lemma chatCompletion_error:
  "chatCompletion cl msgs = Inl err \<Longrightarrow> \<exists>r. err = AIServiceError r"
  by (auto simp: chatCompletion_def split: upstream.splits list.splits option.splits if_splits)

lemma getSession_absent:
  "kv w = None \<Longrightarrow> getSession w sid now = Inl (SessionError StorageUnavailable)"
  by (simp add: getSession_def)

lemma getSession_missing:
  "kv w = Some k \<Longrightarrow>
   k (session_key sid) = None \<or> (\<exists>v x. k (session_key sid) = Some (v, x) \<and> x \<le> now) \<Longrightarrow>
   getSession w sid now = Inl (SessionError NotFoundOrExpired)"
  by (auto simp: getSession_def kv_get_def)

lemma createSession_stored:
  "kv w \<noteq> None \<Longrightarrow>
   stored_session (snd (createSession w u t)) u = Some (fst (createSession w u t))"
  by (auto simp: createSession_def stored_session_def kv_put_def Let_def)

lemma createSession_fst:
  "fst (createSession w u t) =
     \<lparr>session_id = u, messages = [], created_at = t, updated_at = t,
      expires_at = t + 3600 * 1000\<rparr>"
  by (simp add: createSession_def Let_def sessionTTL_def split: option.splits)

lemma recovery:
  assumes g: "getSession w sid (t_get e) = Inl err"
  shows "turn_session w e sid =
          \<lparr>session_id = session_uuid e, messages = [], created_at = t_create e,
           updated_at = t_create e, expires_at = t_create e + 3600 * 1000\<rparr>" (is ?A)
    and "\<forall>raw. chatCompletion cl (turn_request w e sid code language userContext) = Inr raw \<longrightarrow>
              (\<exists>res w'. processCodeReview w cl e sid code language userContext = (Inr res, w')
                 \<and> res_sessionId res = session_uuid e
                 \<and> (kv w \<noteq> None \<longrightarrow>
                      (\<exists>s'. stored_session w' (session_uuid e) = Some s' \<and> length (messages s') = 2)))"
          (is ?B)
    and "\<forall>res w'. processCodeReview w cl e sid code language userContext = (Inr res, w') \<longrightarrow>
              res_sessionId res = session_uuid e" (is ?C)
    and "\<forall>err' w'. processCodeReview w cl e sid code language userContext = (Inl err', w') \<longrightarrow>
              (\<exists>r. err' = AIServiceError r) \<and>
              chatCompletion cl (turn_request w e sid code language userContext) = Inl err'" (is ?D)
proof -
  show ts: ?A
    by (simp add: turn_session_def g createSession_fst)
  let ?req = "turn_request w e sid code language userContext"
  let ?pc = "processCodeReview w cl e sid code language userContext"
  show ?B
  proof (intro allI impI)
    fix raw
    assume c: "chatCompletion cl ?req = Inr raw"
    let ?w2 = "(turn_world w e sid)\<lparr>calls := calls (turn_world w e sid) @ [?req]\<rparr>"
    let ?s2 = "(turn_session w e sid)\<lparr>messages := keep_last_10 (messages (turn_session w e sid) @
                     [\<lparr>role = User, content = snd (turn_prompts code language userContext)\<rparr>,
                      \<lparr>role = Assistant, content = sanitizeResponse raw\<rparr>])\<rparr>"
    let ?res = "\<lparr>res_review = sanitizeResponse raw,
                   res_severity = (if isCode (sanitizeCode code)
                                   then extractSeverity (sanitizeResponse raw) else Info),
                   res_sessionId = session_uuid e\<rparr>"
    have p: "?pc = (Inr ?res, snd (updateSession ?w2 ?s2 (t_update e)))"
      by (simp add: processCodeReview_unfold Let_def c g)
    have st: "\<exists>s'. stored_session (snd (updateSession ?w2 ?s2 (t_update e))) (session_uuid e) = Some s'
                \<and> length (messages s') = 2" if "kv w \<noteq> None"
    proof -
      have k: "kv ?w2 \<noteq> None" using that by (simp add: turn_world_kv)
      have i: "session_id ?s2 = session_uuid e" by (simp add: ts)
      have m: "length (messages (fst (updateSession ?w2 ?s2 (t_update e)))) = 2"
        by (simp only: updateSession_messages) (simp add: ts keep_last_10_def)
      from updateSession_stored [OF k, of ?s2 "t_update e"] i m show ?thesis by auto
    qed
    show "\<exists>res w'. ?pc = (Inr res, w') \<and> res_sessionId res = session_uuid e
                 \<and> (kv w \<noteq> None \<longrightarrow>
                      (\<exists>s'. stored_session w' (session_uuid e) = Some s' \<and> length (messages s') = 2))"
      using p st by (intro exI [of _ ?res] exI [of _ "snd (updateSession ?w2 ?s2 (t_update e))"]) simp
  qed
  show ?C
  proof (intro allI impI)
    fix res w'
    assume "?pc = (Inr res, w')"
    then show "res_sessionId res = session_uuid e"
      by (cases "chatCompletion cl ?req") (auto simp: processCodeReview_unfold Let_def g)
  qed
  show ?D
  proof (intro allI impI)
    fix err' w'
    assume "?pc = (Inl err', w')"
    then have c: "chatCompletion cl ?req = Inl err'"
      by (cases "chatCompletion cl ?req") (auto simp: processCodeReview_unfold Let_def g)
    with chatCompletion_error [OF c]
    show "(\<exists>r. err' = AIServiceError r) \<and> chatCompletion cl ?req = Inl err'" by simp
  qed
qed

text \<open>
  C6. A direct \<open>getSession\<close> fails with \<open>SessionError\<close> when the service has no namespace and
  when the entry is missing or expired. In \<open>processCodeReview\<close> a failed lookup is recovered:
  the turn works on a session created on the spot, the request to the completion API is
  made, a completion yields a result whose \<open>sessionId\<close> is the identifier of the new session
  (which is stored when there is a namespace), and the only error the turn can still
  return is the \<open>AIServiceError\<close> of the completion, never the error of the lookup.
\<close>

theorem session_lookup_recovery:
  "(kv w = None \<longrightarrow> getSession w sid now = Inl (SessionError StorageUnavailable))
   \<and> (\<forall>k. kv w = Some k \<and>
          (k (session_key sid) = None \<or> (\<exists>v x. k (session_key sid) = Some (v, x) \<and> x \<le> now))
        \<longrightarrow> getSession w sid now = Inl (SessionError NotFoundOrExpired))
   \<and> (\<forall>err. getSession w sid (t_get e) = Inl err \<longrightarrow>
        turn_session w e sid =
          \<lparr>session_id = session_uuid e, messages = [], created_at = t_create e,
           updated_at = t_create e, expires_at = t_create e + 3600 * 1000\<rparr>
        \<and> (\<forall>raw. chatCompletion cl (turn_request w e sid code language userContext) = Inr raw \<longrightarrow>
              (\<exists>res w'. processCodeReview w cl e sid code language userContext = (Inr res, w')
                 \<and> res_sessionId res = session_uuid e
                 \<and> (kv w \<noteq> None \<longrightarrow>
                      (\<exists>s'. stored_session w' (session_uuid e) = Some s' \<and> length (messages s') = 2))))
        \<and> (\<forall>res w'. processCodeReview w cl e sid code language userContext = (Inr res, w') \<longrightarrow>
              res_sessionId res = session_uuid e)
        \<and> (\<forall>err' w'. processCodeReview w cl e sid code language userContext = (Inl err', w') \<longrightarrow>
              (\<exists>r. err' = AIServiceError r) \<and>
              chatCompletion cl (turn_request w e sid code language userContext) = Inl err'))"
proof (intro conjI allI impI)
  show "getSession w sid now = Inl (SessionError StorageUnavailable)" if "kv w = None"
    using that by (rule getSession_absent)
next
  fix k
  assume "kv w = Some k \<and>
          (k (session_key sid) = None \<or> (\<exists>v x. k (session_key sid) = Some (v, x) \<and> x \<le> now))"
  then show "getSession w sid now = Inl (SessionError NotFoundOrExpired)"
    using getSession_missing by blast
next
  fix err
  assume g: "getSession w sid (t_get e) = Inl err"
  from recovery(1) [OF g]
  show "turn_session w e sid =
          \<lparr>session_id = session_uuid e, messages = [], created_at = t_create e,
           updated_at = t_create e, expires_at = t_create e + 3600 * 1000\<rparr>" .
next
  fix err raw
  assume g: "getSession w sid (t_get e) = Inl err"
    and c: "chatCompletion cl (turn_request w e sid code language userContext) = Inr raw"
  from recovery(2) [OF g, of cl code language userContext] c
  show "\<exists>res w'. processCodeReview w cl e sid code language userContext = (Inr res, w')
                 \<and> res_sessionId res = session_uuid e
                 \<and> (kv w \<noteq> None \<longrightarrow>
                      (\<exists>s'. stored_session w' (session_uuid e) = Some s' \<and> length (messages s') = 2))"
    by blast
next
  fix err res w'
  assume g: "getSession w sid (t_get e) = Inl err"
    and p: "processCodeReview w cl e sid code language userContext = (Inr res, w')"
  from recovery(3) [OF g, of cl code language userContext] p
  show "res_sessionId res = session_uuid e" by blast
next
  fix err err' w'
  assume g: "getSession w sid (t_get e) = Inl err"
    and p: "processCodeReview w cl e sid code language userContext = (Inl err', w')"
  from recovery(4) [OF g, of cl code language userContext] p
  show "\<exists>r. err' = AIServiceError r" by blast
next
  fix err err' w'
  assume g: "getSession w sid (t_get e) = Inl err"
    and p: "processCodeReview w cl e sid code language userContext = (Inl err', w')"
  from recovery(4) [OF g, of cl code language userContext] p
  show "chatCompletion cl (turn_request w e sid code language userContext) = Inl err'" by blast
qed


theorem session_lookup_recovery_witness:
  "getSession dev_world ''zzz'' 1000 = Inl (SessionError StorageUnavailable)
   \<and> getSession example_world ''zzz'' 1000 = Inl (SessionError NotFoundOrExpired)
   \<and> getSession example_world ''abc'' 3600000 = Inl (SessionError NotFoundOrExpired)
   \<and> (\<exists>res w'. processCodeReview example_world example_client example_env ''zzz'' ''hello''
                   None None = (Inr res, w')
          \<and> res_sessionId res = ''u2''
          \<and> (\<exists>s'. stored_session w' ''u2'' = Some s' \<and> length (messages s') = 2))
   \<and> (\<exists>res w'. processCodeReview dev_world example_client example_env ''zzz'' ''hello''
                   None None = (Inr res, w')
          \<and> res_sessionId res = ''u2'')"
proof -
  note a = session_lookup_recovery [where w = dev_world and sid = "''zzz''" and now = 1000
      and e = example_env and cl = example_client and code = "''hello''" and language = None
      and userContext = None]
  note b = session_lookup_recovery [where w = example_world and sid = "''zzz''" and now = 1000
      and e = example_env and cl = example_client and code = "''hello''" and language = None
      and userContext = None]
  note c = session_lookup_recovery [where w = example_world and sid = "''abc''" and now = 3600000
      and e = example_env and cl = example_client and code = "''hello''" and language = None
      and userContext = None]
  have 1: "getSession dev_world ''zzz'' 1000 = Inl (SessionError StorageUnavailable)"
    using a by (simp add: dev_world_def)
  have 2: "getSession example_world ''zzz'' 1000 = Inl (SessionError NotFoundOrExpired)"
    using b by (simp add: example_world_def session_key_def)
  have 3: "getSession example_world ''abc'' 3600000 = Inl (SessionError NotFoundOrExpired)"
    using c by (simp add: example_world_def session_key_def)
  have g: "getSession example_world ''zzz'' (t_get example_env) = Inl (SessionError NotFoundOrExpired)"
    using 2 by (simp add: example_env_def)
  have k: "kv example_world \<noteq> None" by (simp add: example_world_def)
  from b g k have 4: "\<exists>res w'. processCodeReview example_world example_client example_env ''zzz'' ''hello''
                   None None = (Inr res, w')
          \<and> res_sessionId res = ''u2''
          \<and> (\<exists>s'. stored_session w' ''u2'' = Some s' \<and> length (messages s') = 2)"
    by (simp add: example_env_def)
  have g': "getSession dev_world ''zzz'' (t_get example_env) = Inl (SessionError StorageUnavailable)"
    using 1 by (simp add: example_env_def)
  from a g' have 5: "\<exists>res w'. processCodeReview dev_world example_client example_env ''zzz'' ''hello''
                   None None = (Inr res, w')
          \<and> res_sessionId res = ''u2''"
    by (simp add: example_env_def) blast
  from 1 2 3 4 5 show ?thesis by blast
qed

text \<open>
  C8. When the classifier does not take the sanitized input for code, the severity returned
  by \<open>processCodeReview\<close> is \<open>info\<close>, whatever the response says; on the code branch it is
  \<open>extractSeverity\<close> of the returned review.
\<close>

theorem severity_by_branch:
  "processCodeReview w cl e sid code language userContext = (Inr res, w') \<longrightarrow>
     (\<not> isCode (sanitizeCode code) \<longrightarrow> res_severity res = Info) \<and>
     (isCode (sanitizeCode code) \<longrightarrow> res_severity res = extractSeverity (res_review res))"
  by (cases "chatCompletion cl (turn_request w e sid code language userContext)")
     (auto simp: processCodeReview_unfold Let_def)

theorem severity_by_branch_witness:
  "\<not> isCode (sanitizeCode ''hello'')
   \<and> isCode (sanitizeCode ''function f(){ return 1 }'')
   \<and> (\<exists>res w'. processCodeReview dev_world example_client example_env ''s'' ''hello'' None None
                  = (Inr res, w')
          \<and> res_severity res = Info \<and> extractSeverity (res_review res) = Critical)
   \<and> (\<exists>res w'. processCodeReview dev_world example_client example_env ''s''
                  ''function f(){ return 1 }'' None None = (Inr res, w')
          \<and> res_severity res = Critical)"
proof -
  have n: "\<not> isCode (sanitizeCode ''hello'')" by code_simp
  have y: "isCode (sanitizeCode ''function f(){ return 1 }'')" by code_simp
  have s: "sanitizeResponse ''This is critical.'' = ''This is critical.''" by code_simp
  have x: "extractSeverity ''This is critical.'' = Critical" by code_simp
  let ?p1 = "processCodeReview dev_world example_client example_env ''s'' ''hello'' None None"
  let ?p2 = "processCodeReview dev_world example_client example_env ''s''
                  ''function f(){ return 1 }'' None None"
  obtain r1 where p1: "?p1 = (Inr r1, snd ?p1)" and v1: "res_review r1 = ''This is critical.''"
    by (cases ?p1) (auto simp: processCodeReview_unfold Let_def s)
  obtain r2 where p2: "?p2 = (Inr r2, snd ?p2)" and v2: "res_review r2 = ''This is critical.''"
    by (cases ?p2) (auto simp: processCodeReview_unfold Let_def s)
  from severity_by_branch [of dev_world example_client example_env "''s''" "''hello''" None None
      r1 "snd ?p1"] p1 n
  have 1: "res_severity r1 = Info" by simp
  from severity_by_branch [of dev_world example_client example_env "''s''"
      "''function f(){ return 1 }''" None None r2 "snd ?p2"] p2 y v2 x
  have 2: "res_severity r2 = Critical" by simp
  from n y p1 p2 1 2 v1 x show ?thesis by metis
qed


lemma update_all_kept:
  "kv w \<noteq> None \<Longrightarrow> ts \<noteq> [] \<Longrightarrow>
   fst (update_all w s ts) = s\<lparr>updated_at := last ts\<rparr> \<and>
   stored_session (snd (update_all w s ts)) (session_id s) = Some (s\<lparr>updated_at := last ts\<rparr>) \<and>
   stored_expiry (snd (update_all w s ts)) (session_id s) = Some (last ts + 3600 * 1000)"
proof (induction ts arbitrary: w s)
  case Nil
  then show ?case by simp
next
  case (Cons t ts)
  from Cons.prems obtain k where k: "kv w = Some k" by auto
  let ?s1 = "s\<lparr>updated_at := t\<rparr>"
  let ?w1 = "w\<lparr>kv := Some (k(session_key (session_id s) \<mapsto> (Json ?s1, t + 3600 * 1000)))\<rparr>"
  have u: "updateSession w s t = (?s1, ?w1)" by (rule updateSession_Some [OF k])
  show ?case
  proof (cases ts)
    case Nil
    then show ?thesis by (simp add: u stored_session_def stored_expiry_def)
  next
    case (Cons t' ts')
    then have ne: "ts \<noteq> []" by simp
    have k1: "kv ?w1 \<noteq> None" by simp
    from Cons.IH [OF k1 ne, of ?s1] ne show ?thesis by (simp add: u)
  qed
qed

text \<open>
  C10. \<open>updateSession\<close> changes the field \<open>updated_at\<close> and nothing else: identifier,
  messages, \<open>created_at\<close> and \<open>expires_at\<close> are written back as they were, under the
  session's key and with a store expiry of one hour from the update. After a creation at
  \<open>t0\<close> and any run of updates, the stored \<open>expires_at\<close> is still \<open>t0\<close> plus one hour, while the
  store drops the entry one hour after the last update. Without a namespace the call does
  nothing.
\<close>

theorem updateSession_frame:
  "(\<forall>k. kv w = Some k \<longrightarrow>
      updateSession w s now =
        (s\<lparr>updated_at := now\<rparr>,
         w\<lparr>kv := Some (k(session_key (session_id s) \<mapsto>
                  (Json (s\<lparr>updated_at := now\<rparr>), now + 3600 * 1000)))\<rparr>))
   \<and> (kv w = None \<longrightarrow> updateSession w s now = (s, w))
   \<and> (\<forall>s' w'. updateSession w s now = (s', w') \<longrightarrow>
        session_id s' = session_id s \<and> messages s' = messages s \<and>
        created_at s' = created_at s \<and> expires_at s' = expires_at s \<and>
        (kv w \<noteq> None \<longrightarrow>
           stored_session w' (session_id s) = Some s' \<and>
           stored_expiry w' (session_id s) = Some (now + 3600 * 1000)))
   \<and> (\<forall>ts. kv w \<noteq> None \<and> ts \<noteq> [] \<longrightarrow>
        (\<exists>s'. stored_session
                (snd (update_all (snd (createSession w u t0)) (fst (createSession w u t0)) ts)) u
              = Some s' \<and>
              expires_at s' = t0 + 3600 * 1000 \<and> updated_at s' = last ts \<and>
              stored_expiry
                (snd (update_all (snd (createSession w u t0)) (fst (createSession w u t0)) ts)) u
              = Some (last ts + 3600 * 1000)))"
proof -
  have A: "updateSession w s now =
        (s\<lparr>updated_at := now\<rparr>,
         w\<lparr>kv := Some (k(session_key (session_id s) \<mapsto>
                  (Json (s\<lparr>updated_at := now\<rparr>), now + 3600 * 1000)))\<rparr>)"
    if "kv w = Some k" for k
    using that by (rule updateSession_Some)
  have B: "updateSession w s now = (s, w)" if "kv w = None"
    using that by (rule updateSession_None)
  have C: "session_id s' = session_id s \<and> messages s' = messages s \<and>
        created_at s' = created_at s \<and> expires_at s' = expires_at s \<and>
        (kv w \<noteq> None \<longrightarrow>
           stored_session w' (session_id s) = Some s' \<and>
           stored_expiry w' (session_id s) = Some (now + 3600 * 1000))"
    if "updateSession w s now = (s', w')" for s' w'
    using that
    by (cases "kv w")
       (auto simp: updateSession_None updateSession_Some stored_session_def stored_expiry_def)
  have D: "\<exists>s'. stored_session
                (snd (update_all (snd (createSession w u t0)) (fst (createSession w u t0)) ts)) u
              = Some s' \<and>
              expires_at s' = t0 + 3600 * 1000 \<and> updated_at s' = last ts \<and>
              stored_expiry
                (snd (update_all (snd (createSession w u t0)) (fst (createSession w u t0)) ts)) u
              = Some (last ts + 3600 * 1000)"
    if a: "kv w \<noteq> None \<and> ts \<noteq> []" for ts
  proof -
    let ?s0 = "fst (createSession w u t0)"
    let ?w0 = "snd (createSession w u t0)"
    have k: "kv ?w0 \<noteq> None" using a by (simp add: createSession_kv)
    have i: "session_id ?s0 = u" by (simp add: createSession_fst)
    from update_all_kept [OF k, of ts ?s0] a
    show ?thesis
      by (simp add: i) (simp add: createSession_fst)
  qed
  from A B C D show ?thesis by blast
qed

theorem updateSession_frame_witness:
  "updateSession example_world example_session 5000 =
     (example_session\<lparr>updated_at := 5000\<rparr>,
      example_world\<lparr>kv := Some [session_key ''abc'' \<mapsto>
                                  (Json (example_session\<lparr>updated_at := 5000\<rparr>), 3605000)]\<rparr>)
   \<and> expires_at (fst (updateSession example_world example_session 5000)) = 3600000
   \<and> updateSession dev_world example_session 5000 = (example_session, dev_world)
   \<and> (\<exists>s'. stored_session
              (snd (update_all (snd (createSession example_world ''n'' 0))
                               (fst (createSession example_world ''n'' 0))
                               [1000000, 2000000, 3000000])) ''n'' = Some s'
          \<and> expires_at s' = 3600000 \<and> updated_at s' = 3000000
          \<and> stored_expiry
              (snd (update_all (snd (createSession example_world ''n'' 0))
                               (fst (createSession example_world ''n'' 0))
                               [1000000, 2000000, 3000000])) ''n'' = Some 6600000)"
proof -
  note a = updateSession_frame [where w = example_world and s = example_session and now = 5000
      and u = "''n''" and ?t0.0 = 0]
  note b = updateSession_frame [where w = dev_world and s = example_session and now = 5000
      and u = "''n''" and ?t0.0 = 0]
  have i: "session_id example_session = ''abc''" by (simp add: example_session_def)
  have 1: "updateSession example_world example_session 5000 =
     (example_session\<lparr>updated_at := 5000\<rparr>,
      example_world\<lparr>kv := Some [session_key ''abc'' \<mapsto>
                                  (Json (example_session\<lparr>updated_at := 5000\<rparr>), 3605000)]\<rparr>)"
    using a by (simp add: example_world_def i)
  have 2: "expires_at (fst (updateSession example_world example_session 5000)) = 3600000"
    using a by (simp add: example_world_def example_session_def)
  have 3: "updateSession dev_world example_session 5000 = (example_session, dev_world)"
    using b by (simp add: dev_world_def)
  have k: "kv example_world \<noteq> None" by (simp add: example_world_def)
  from a k have 4: "\<exists>s'. stored_session
              (snd (update_all (snd (createSession example_world ''n'' 0))
                               (fst (createSession example_world ''n'' 0))
                               [1000000, 2000000, 3000000])) ''n'' = Some s'
          \<and> expires_at s' = 3600000 \<and> updated_at s' = 3000000
          \<and> stored_expiry
              (snd (update_all (snd (createSession example_world ''n'' 0))
                               (fst (createSession example_world ''n'' 0))
                               [1000000, 2000000, 3000000])) ''n'' = Some 6600000"
    by (elim conjE allE [of _ "[1000000, 2000000, 3000000]"]) simp
  from 1 2 3 4 show ?thesis by blast
qed



section \<open>Review route: properties\<close>

lemma processCodeReview_error:
  "processCodeReview w cl e sid code language userContext = (Inl err, w') \<Longrightarrow>
   \<exists>r. err = AIServiceError r"
  using chatCompletion_error [of cl "turn_request w e sid code language userContext" err]
  by (cases "chatCompletion cl (turn_request w e sid code language userContext)")
     (auto simp: processCodeReview_unfold Let_def)

lemma trim_Nil [simp]: "trim [] = []"
  by (simp add: trim_def)

lemma review_handler_invalid:
  assumes "code_invalid config b"
  shows "\<exists>r. review_handler w cl e config (Fields b) = (Inl (ValidationError r), w)"
proof (cases "body_code b")
  case None
  then show ?thesis by (simp add: review_handler_def)
next
  case (Some j)
  show ?thesis
  proof (cases j)
    case (JStr c)
    with Some assms have
      "trim c = [] \<or> (\<exists>m. parseInt10 (MAX_CODE_LENGTH config) = Some m \<and> int (length c) > m)"
      by (auto simp: code_invalid_def)
    then show ?thesis
      using Some JStr by (auto simp: review_handler_def Let_def split: option.splits)
  qed (use Some in \<open>simp_all add: review_handler_def\<close>)
qed

lemma review_handler_valid:
  assumes "\<not> code_invalid config b"
  shows "\<exists>c sid. body_code b = Some (JStr c) \<and>
     review_handler w cl e config (Fields b) =
       (case processCodeReview w cl e sid c (body_language b) (body_context b) of
          (Inl err, w') \<Rightarrow> (Inl err, w')
        | (Inr result, w') \<Rightarrow>
            (Inr \<lparr>resp_session_id = res_sessionId result, resp_review = res_review result,
                  resp_severity = res_severity result, resp_timestamp = t_response e\<rparr>, w'))"
proof -
  from assms obtain c where c: "body_code b = Some (JStr c)"
    by (cases "body_code b"; cases "the (body_code b)") (auto simp: code_invalid_def)
  from assms c have t: "trim c \<noteq> []"
    and m: "\<And>m. parseInt10 (MAX_CODE_LENGTH config) = Some m \<Longrightarrow> \<not> int (length c) > m"
    by (auto simp: code_invalid_def)
  from t have ne: "c \<noteq> []" by auto
  show ?thesis
    using c t ne m
    by (auto simp: review_handler_def Let_def split: option.splits)
qed

text \<open>
  For a body that is an object (or any JSON value but \<open>null\<close>) the handler throws a
  \<open>ValidationError\<close> exactly under the specification's condition, and then neither the
  namespace nor the log of completion requests has changed.
\<close>

lemma review_handler_validation:
  "(\<exists>r. fst (review_handler w cl e config (Fields b)) = Inl (ValidationError r))
     \<longleftrightarrow> code_invalid config b"
proof
  assume l: "\<exists>r. fst (review_handler w cl e config (Fields b)) = Inl (ValidationError r)"
  show "code_invalid config b"
  proof (rule ccontr)
    assume "\<not> code_invalid config b"
    from review_handler_valid [OF this, of w cl e] obtain c sid where
      h: "review_handler w cl e config (Fields b) =
       (case processCodeReview w cl e sid c (body_language b) (body_context b) of
          (Inl err, w') \<Rightarrow> (Inl err, w')
        | (Inr result, w') \<Rightarrow>
            (Inr \<lparr>resp_session_id = res_sessionId result, resp_review = res_review result,
                  resp_severity = res_severity result, resp_timestamp = t_response e\<rparr>, w'))"
      by blast
    obtain x w' where p: "processCodeReview w cl e sid c (body_language b) (body_context b) = (x, w')"
      by (cases "processCodeReview w cl e sid c (body_language b) (body_context b)")
    show False
    proof (cases x)
      case (Inl err)
      with processCodeReview_error p obtain r where "err = AIServiceError r" by blast
      with l h p Inl show False by simp
    next
      case (Inr res)
      with l h p show False by simp
    qed
  qed
next
  assume "code_invalid config b"
  from review_handler_invalid [OF this, of w cl e] show
    "\<exists>r. fst (review_handler w cl e config (Fields b)) = Inl (ValidationError r)"
    by auto
qed

lemma review_handler_no_effect:
  "fst (review_handler w cl e config body) = Inl (ValidationError r) \<Longrightarrow>
   snd (review_handler w cl e config body) = w"
proof (cases body)
  case NullBody
  then show ?thesis by (simp add: review_handler_def)
next
  case (Fields b)
  assume a: "fst (review_handler w cl e config body) = Inl (ValidationError r)"
  with Fields review_handler_validation [of w cl e config b] have "code_invalid config b" by blast
  from review_handler_invalid [OF this, of w cl e] Fields show ?thesis by auto
qed

text \<open>
  C7. The handler is to answer a request whose body has no usable \<open>code\<close> with a
  \<open>ValidationError\<close> (status 400), before any effect. For the body \<open>null\<close>, which has no
  \<open>code\<close> property, reading the properties throws: the handler ends with a \<open>TypeError\<close>,
  which is no \<open>ValidationError\<close> and which the global error handler answers with status 500.
\<close>

theorem review_null_body:
  "review_handler w cl e config NullBody = (Inl TypeError, w)
   \<and> statusCode TypeError = 500
   \<and> (\<forall>r. fst (review_handler w cl e config NullBody) \<noteq> Inl (ValidationError r))"
  by (simp add: review_handler_def statusCode_def)



section \<open>The matcher: properties\<close>

lemma after_simps [simp]: "after p [] = p" "after p (x # xs) = after (Some x) xs"
  "after p (u @ [x]) = Some x"
  by (simp_all add: after_def)

lemma after_append: "after p (u @ v) = after (after p u) v"
  by (simp add: after_def)

lemma run_Seq_set: "set (run (Seq a b) st) = (\<Union>st' \<in> set (run a st). set (run b st'))"
  by simp

lemma run_Cls_Nil [simp]: "run (Cls P) (p, [], c) = []"
  by simp

lemma run_Cls_Cons [simp]:
  "run (Cls P) (p, x # xs, c) = (if P x then [(Some x, xs, c)] else [])"
  by simp

lemmas run_Star = run.simps(5)
lemmas run_Lazy = run.simps(6)
declare run.simps(5) [simp del]
declare run.simps(6) [simp del]
declare replace_all.simps [simp del]

lemma star_cls_set:
  "set (run (Star (Cls P)) (p, s, c)) =
     {(after p u, v, c) | u v. s = u @ v \<and> (\<forall>x \<in> set u. P x)}"
proof (induction s arbitrary: p)
  case Nil
  then show ?case by (auto simp: progress_def run_Star)
next
  case (Cons x xs)
  show ?case
  proof (cases "P x")
    case True
    have "set (run (Star (Cls P)) (p, x # xs, c)) =
          set (run (Star (Cls P)) (Some x, xs, c)) \<union> {(p, x # xs, c)}"
      using True by (subst run_Star) (simp add: progress_def)
    also have "\<dots> = {(after (Some x) u, v, c) | u v. xs = u @ v \<and> (\<forall>x \<in> set u. P x)}
                     \<union> {(p, x # xs, c)}"
      by (simp only: Cons.IH)
    also have "\<dots> = {(after p u, v, c) | u v. x # xs = u @ v \<and> (\<forall>x \<in> set u. P x)}"
      (is "?L = ?R")
    proof (intro set_eqI iffI)
      fix st assume "st \<in> ?L"
      then consider u v where "st = (after (Some x) u, v, c)" "xs = u @ v" "\<forall>x \<in> set u. P x"
        | "st = (p, x # xs, c)" by auto
      then show "st \<in> ?R"
      proof cases
        case 1
        then have "st = (after p (x # u), v, c) \<and> x # xs = (x # u) @ v \<and> (\<forall>y \<in> set (x # u). P y)"
          using True by simp
        then show ?thesis by blast
      next
        case 2
        then have "st = (after p [], x # xs, c) \<and> x # xs = [] @ (x # xs) \<and> (\<forall>y \<in> set []. P y)"
          by simp
        then show ?thesis by blast
      qed
    next
      fix st assume "st \<in> ?R"
      then obtain u v where st: "st = (after p u, v, c)" and e: "x # xs = u @ v"
        and P: "\<forall>x \<in> set u. P x" by auto
      show "st \<in> ?L"
      proof (cases u)
        case Nil
        then show ?thesis using st e by simp
      next
        case (Cons y u')
        then have "st = (after (Some x) u', v, c)" "xs = u' @ v" "\<forall>x \<in> set u'. P x"
          using st e P by auto
        then show ?thesis by blast
      qed
    qed
    finally show ?thesis .
  next
    case False
    have "set (run (Star (Cls P)) (p, x # xs, c)) = {(p, x # xs, c)}"
      using False by (subst run_Star) (simp add: progress_def)
    also have "\<dots> = {(after p u, v, c) | u v. x # xs = u @ v \<and> (\<forall>x \<in> set u. P x)}"
      using False by (auto simp: Cons_eq_append_conv)
    finally show ?thesis .
  qed
qed

lemma ascii_upper_lt [simp]: "ascii_upper x = CHR ''<'' \<longleftrightarrow> x = CHR ''<''"
  by (auto simp: ascii_upper_def split: option.splits if_splits)

lemma starts_ci_Nil [simp]: "starts_ci s []"
  by (simp add: starts_ci_def)

lemma starts_ci_Cons_Nil [simp]: "\<not> starts_ci [] (x # l)"
  by (simp add: starts_ci_def)

lemma starts_ci_Cons_Cons [simp]:
  "starts_ci (y # s) (x # l) \<longleftrightarrow> ascii_upper y = ascii_upper x \<and> starts_ci s l"
  by (auto simp: starts_ci_def)

lemma run_lit_i:
  "run (lit_i l) (p, s, c) =
     (if starts_ci s l then [(after p (take (length l) s), drop (length l) s, c)] else [])"
proof (induction l arbitrary: p s)
  case Nil
  then show ?case by (simp add: lit_i_def seqs_def)
next
  case (Cons x l)
  have u: "lit_i (x # l) = Seq (chr_i x) (lit_i l)" by (simp add: lit_i_def seqs_def)
  show ?case
  proof (cases s)
    case Nil
    then show ?thesis by (simp add: u chr_i_def)
  next
    case (Cons y s')
    then show ?thesis by (simp add: u chr_i_def Cons.IH)
  qed
qed


lemma concat_run_Eps [simp]: "concat (map (run Eps) sts) = sts"
proof -
  have "run Eps = (\<lambda>st. [st])" by (rule ext) simp
  then show ?thesis by simp
qed

lemma ascii_upper_lt_eq [simp]: "ascii_upper CHR ''<'' = CHR ''<''"
  by (simp add: ascii_upper_def)

lemma clear_Nil [simp]: "clear l [] rest"
  by (simp add: clear_def)

lemma clear_Cons:
  "clear l (x # u) rest \<longleftrightarrow> \<not> starts_ci (x # u @ rest) l \<and> clear l u rest"
proof -
  have "(\<forall>i < Suc (length u). \<not> starts_ci (drop i (x # u @ rest)) l) \<longleftrightarrow>
        (\<not> starts_ci (drop 0 (x # u @ rest)) l \<and>
         (\<forall>i < length u. \<not> starts_ci (drop (Suc i) (x # u @ rest)) l))"
    by (metis less_Suc_eq_0_disj)
  then show ?thesis by (simp add: clear_def)
qed

lemma clear_append:
  "clear l (u @ v) rest \<longleftrightarrow> clear l u (v @ rest) \<and> clear l v rest"
  by (induction u) (auto simp: clear_Cons)

lemma clear_not_lt:
  "\<forall>x \<in> set u. x \<noteq> CHR ''<'' \<Longrightarrow> clear (CHR ''<'' # l) u rest"
  by (induction u) (auto simp: clear_Cons)

lemma after_first_clear:
  "clear l u s' \<Longrightarrow> starts_ci s' l \<Longrightarrow> after_first_ci l (u @ s') = Some (drop (length l) s')"
proof (induction u)
  case Nil
  then show ?case by (cases s') (auto simp: starts_ci_def)
next
  case (Cons x u)
  then show ?case by (auto simp: clear_Cons)
qed

lemma after_first_Some:
  "after_first_ci l s = Some rest \<Longrightarrow>
   \<exists>u s'. s = u @ s' \<and> clear l u s' \<and> starts_ci s' l \<and> rest = drop (length l) s'"
proof (induction s)
  case Nil
  then show ?case by (auto split: if_splits)
next
  case (Cons x xs)
  show ?case
  proof (cases "starts_ci (x # xs) l")
    case True
    with Cons.prems have "rest = drop (length l) (x # xs)" by simp
    with True have "x # xs = [] @ (x # xs) \<and> clear l [] (x # xs) \<and> starts_ci (x # xs) l \<and>
        rest = drop (length l) (x # xs)" by simp
    then show ?thesis by blast
  next
    case False
    with Cons.prems have "after_first_ci l xs = Some rest" by simp
    from Cons.IH [OF this] obtain u s' where
      "xs = u @ s'" "clear l u s'" "starts_ci s' l" "rest = drop (length l) s'" by blast
    with False have "x # xs = (x # u) @ s' \<and> clear l (x # u) s' \<and> starts_ci s' l \<and>
        rest = drop (length l) s'" by (simp add: clear_Cons)
    then show ?thesis by blast
  qed
qed

lemma after_first_length: "after_first_ci l s = Some rest \<Longrightarrow> length rest \<le> length s"
  by (induction s) (auto split: if_splits)

lemma run_tag_step:
  "run (tag_step tag) (p, s, c) =
     (if starts_ci s (''</'' @ tag @ ''>'') then []
      else case s of [] \<Rightarrow> []
           | x # xs \<Rightarrow> if x = CHR ''<'' then run (Star not_lt) (Some x, xs, c) else [])"
proof (cases s)
  case Nil
  then show ?thesis by (simp add: tag_step_def seqs_def run_lit_i chr_i_def)
next
  case (Cons x xs)
  then show ?thesis by (simp add: tag_step_def seqs_def run_lit_i chr_i_def)
qed

lemma star_step_sound:
  "st' \<in> set (run (Star (tag_step tag)) (p, s, c)) \<Longrightarrow>
   \<exists>p' u s'. st' = (p', s', c) \<and> s = u @ s' \<and> clear (''</'' @ tag @ ''>'') u s'"
proof (induction "length s" arbitrary: p s rule: less_induct)
  case less
  let ?close = "''</'' @ tag @ ''>''"
  from less.prems have
    "st' = (p, s, c) \<or>
     (\<exists>st1 \<in> set (run (tag_step tag) (p, s, c)). progress s st1 \<and>
        st' \<in> set (run (Star (tag_step tag)) st1))"
    by (subst (asm) run_Star) auto
  then show ?case
  proof
    assume "st' = (p, s, c)"
    then have "st' = (p, s, c) \<and> s = [] @ s \<and> clear ?close [] s" by simp
    then show ?thesis by blast
  next
    assume "\<exists>st1 \<in> set (run (tag_step tag) (p, s, c)). progress s st1 \<and>
        st' \<in> set (run (Star (tag_step tag)) st1)"
    then obtain st1 where m: "st1 \<in> set (run (tag_step tag) (p, s, c))"
      and pr: "progress s st1" and st': "st' \<in> set (run (Star (tag_step tag)) st1)" by blast
    from m obtain xs where n: "\<not> starts_ci s ?close" and s: "s = CHR ''<'' # xs"
      and m1: "st1 \<in> set (run (Star not_lt) (Some CHR ''<'', xs, c))"
      by (auto simp: run_tag_step split: if_splits list.splits)
    from m1 obtain w v where st1: "st1 = (after (Some CHR ''<'') w, v, c)"
      and xs: "xs = w @ v" and w: "\<forall>x \<in> set w. x \<noteq> CHR ''<''"
      by (auto simp: not_lt_def star_cls_set)
    have "length v < length s" using s xs by simp
    from less.hyps [OF this, of "after (Some CHR ''<'') w"] st' st1
    obtain p' u' s' where r: "st' = (p', s', c)" "v = u' @ s'" "clear ?close u' s'" by blast
    have "clear ?close (CHR ''<'' # w @ u') s'"
      using n s xs r(2,3) clear_not_lt [OF w, of "CHR ''/'' # tag @ ''>''" "u' @ s'"]
      by (simp add: clear_Cons clear_append)
    with r s xs have "st' = (p', s', c) \<and> s = (CHR ''<'' # w @ u') @ s' \<and>
        clear ?close (CHR ''<'' # w @ u') s'" by simp
    then show ?thesis by blast
  qed
qed


lemma star_step_complete:
  "clear (''</'' @ tag @ ''>'') u s' \<Longrightarrow> starts_ci s' (''</'' @ tag @ ''>'') \<Longrightarrow>
   u = [] \<or> hd u = CHR ''<'' \<Longrightarrow>
   \<exists>p'. (p', s', c) \<in> set (run (Star (tag_step tag)) (p, u @ s', c))"
proof (induction "length u" arbitrary: p u rule: less_induct)
  case less
  let ?close = "''</'' @ tag @ ''>''"
  show ?case
  proof (cases u)
    case Nil
    have "(p, s', c) \<in> set (run (Star (tag_step tag)) (p, s', c))"
      by (subst run_Star) simp
    with Nil show ?thesis by auto
  next
    case (Cons x t)
    with less.prems(3) have x: "x = CHR ''<''" by simp
    let ?w = "takeWhile (\<lambda>y. y \<noteq> CHR ''<'') t"
    let ?t' = "dropWhile (\<lambda>y. y \<noteq> CHR ''<'') t"
    have t: "t = ?w @ ?t'" by simp
    have w: "\<forall>y \<in> set ?w. y \<noteq> CHR ''<''" by (auto dest: set_takeWhileD)
    have hd: "?t' = [] \<or> hd ?t' = CHR ''<''"
      using hd_dropWhile [of "\<lambda>y. y \<noteq> CHR ''<''" t] by auto
    have n: "\<not> starts_ci (u @ s') ?close"
      using less.prems(1) Cons by (simp add: clear_Cons)
    have "clear ?close ((x # ?w) @ ?t') s'" using less.prems(1) Cons t by simp
    then have c': "clear ?close ?t' s'" unfolding clear_append by blast
    let ?st1 = "(after (Some CHR ''<'') ?w, ?t' @ s', c)"
    have "?st1 \<in> set (run (Star not_lt) (Some CHR ''<'', t @ s', c))"
    proof -
      have "t @ s' = ?w @ (?t' @ s')" by simp
      with w show ?thesis unfolding not_lt_def star_cls_set by blast
    qed
    then have m1: "?st1 \<in> set (run (tag_step tag) (p, u @ s', c))"
      using n Cons x by (simp add: run_tag_step)
    have pr: "progress (u @ s') ?st1"
      using Cons length_dropWhile_le [of "\<lambda>y. y \<noteq> CHR ''<''" t]
      by (simp add: progress_def)
    have "length ?t' < length u"
      using Cons length_dropWhile_le [of "\<lambda>y. y \<noteq> CHR ''<''" t] by simp
    from less.hyps [OF this c' less.prems(2) hd, of "after (Some CHR ''<'') ?w"]
    obtain p' where "(p', s', c) \<in> set (run (Star (tag_step tag)) ?st1)" by blast
    with m1 pr have "(p', s', c) \<in> set (run (Star (tag_step tag)) (p, u @ s', c))"
      by (subst run_Star) auto
    then show ?thesis by blast
  qed
qed

lemma ascii_upper_gt [simp]: "ascii_upper x = CHR ''>'' \<longleftrightarrow> x = CHR ''>''"
  by (auto simp: ascii_upper_def split: option.splits if_splits)

lemma ascii_upper_gt_eq [simp]: "ascii_upper CHR ''>'' = CHR ''>''"
  by (simp add: ascii_upper_def)

lemma starts_ci_Nil_iff [simp]: "starts_ci [] l \<longleftrightarrow> l = []"
  by (simp add: starts_ci_def)

lemma starts_ci_last:
  "starts_ci s (l @ [z]) \<Longrightarrow> ascii_upper (last (take (Suc (length l)) s)) = ascii_upper z"
proof (induction l arbitrary: s)
  case Nil
  then show ?case by (cases s) auto
next
  case (Cons a l)
  then obtain y s1 where s: "s = y # s1" by (cases s) auto
  with Cons.prems have "starts_ci s1 (l @ [z])" by simp
  from Cons.IH [OF this] s show ?case
    by (cases s1) (use \<open>starts_ci s1 (l @ [z])\<close> in auto)
qed

lemma tail_sound:
  assumes "st' \<in> set (run (seqs [Star not_lt, Star (tag_step tag), lit_i (''</'' @ tag @ ''>'')])
                          (q, s1, c))"
  shows "\<exists>rest. after_first_ci (''</'' @ tag @ ''>'') s1 = Some rest \<and>
                st' = (Some CHR ''>'', rest, c)"
proof -
  let ?close = "''</'' @ tag @ ''>''"
  from assms obtain sta stb where a: "sta \<in> set (run (Star not_lt) (q, s1, c))"
    and b: "stb \<in> set (run (Star (tag_step tag)) sta)"
    and d: "st' \<in> set (run (lit_i ?close) stb)"
    by (auto simp: seqs_def)
  from a obtain w v where sta: "sta = (after q w, v, c)" and s1: "s1 = w @ v"
    and w: "\<forall>x \<in> set w. x \<noteq> CHR ''<''"
    by (auto simp: not_lt_def star_cls_set)
  from star_step_sound [OF b [unfolded sta]] obtain p' u s' where
    stb: "stb = (p', s', c)" and v: "v = u @ s'" and cu: "clear ?close u s'" by blast
  from d stb have sc: "starts_ci s' ?close"
    and st': "st' = (after p' (take (length ?close) s'), drop (length ?close) s', c)"
    by (auto simp: run_lit_i split: if_splits)
  have "clear ?close (w @ u) s'"
    using cu clear_not_lt [OF w, of "CHR ''/'' # tag @ ''>''" "u @ s'"]
    by (simp add: clear_append)
  from after_first_clear [OF this sc] s1 v
  have af: "after_first_ci ?close s1 = Some (drop (length ?close) s')" by simp
  have "?close = (''</'' @ tag) @ [CHR ''>'']" by simp
  with sc have "starts_ci s' ((''</'' @ tag) @ [CHR ''>''])" by simp
  from starts_ci_last [OF this]
  have l: "last (take (length ?close) s') = CHR ''>''" by simp
  have ne: "take (length ?close) s' \<noteq> []" using sc by (auto simp: starts_ci_def)
  have "after p' (take (length ?close) s') = Some CHR ''>''"
    using l ne by (simp add: after_def)
  with st' af show ?thesis by simp
qed

lemma tail_complete:
  assumes "after_first_ci (''</'' @ tag @ ''>'') s1 = Some rest"
  shows "run (seqs [Star not_lt, Star (tag_step tag), lit_i (''</'' @ tag @ ''>'')]) (q, s1, c) \<noteq> []"
proof -
  let ?close = "''</'' @ tag @ ''>''"
  from after_first_Some [OF assms] obtain u0 s' where s1: "s1 = u0 @ s'"
    and cu: "clear ?close u0 s'" and sc: "starts_ci s' ?close" by blast
  let ?w = "takeWhile (\<lambda>y. y \<noteq> CHR ''<'') u0"
  let ?u = "dropWhile (\<lambda>y. y \<noteq> CHR ''<'') u0"
  have w: "\<forall>y \<in> set ?w. y \<noteq> CHR ''<''" by (auto dest: set_takeWhileD)
  have hd: "?u = [] \<or> hd ?u = CHR ''<''"
    using hd_dropWhile [of "\<lambda>y. y \<noteq> CHR ''<''" u0] by auto
  have "clear ?close (?w @ ?u) s'" using cu by simp
  then have c': "clear ?close ?u s'" unfolding clear_append by blast
  let ?sta = "(after q ?w, ?u @ s', c)"
  have a: "?sta \<in> set (run (Star not_lt) (q, s1, c))"
  proof -
    have "s1 = ?w @ (?u @ s')" using s1 by simp
    with w show ?thesis unfolding not_lt_def star_cls_set by blast
  qed
  from star_step_complete [OF c' sc hd, of c "after q ?w"] obtain p' where
    b: "(p', s', c) \<in> set (run (Star (tag_step tag)) ?sta)" by blast
  have d: "run (lit_i ?close) (p', s', c) \<noteq> []" using sc by (simp add: run_lit_i)
  then obtain st' where "st' \<in> set (run (lit_i ?close) (p', s', c))"
    by (cases "run (lit_i ?close) (p', s', c)") auto
  with a b have "st' \<in> set (run (seqs [Star not_lt, Star (tag_step tag), lit_i ?close]) (q, s1, c))"
    by (auto simp: seqs_def simp del: append.simps) 
  then show ?thesis by auto
qed


lemma run_block_re_unfold:
  "run (block_re tag) (p, s, c) =
     (let n = length (''<'' @ tag) in
      if starts_ci s (''<'' @ tag) \<and> at_boundary (Some (last (take n s))) (drop n s)
      then run (seqs [Star not_lt, Star (tag_step tag), lit_i (''</'' @ tag @ ''>'')])
             (Some (last (take n s)), drop n s, c)
      else [])"
proof (cases "starts_ci s (''<'' @ tag)")
  case True
  then have "take (Suc (length tag)) s \<noteq> []" by (cases s) auto
  then have a: "after p (take (Suc (length tag)) s) = Some (last (take (Suc (length tag)) s))"
    by (simp add: after_def)
  have b: "block_re tag =
     Seq (lit_i (''<'' @ tag))
       (Seq WordB (seqs [Star not_lt, Star (tag_step tag), lit_i (''</'' @ tag @ ''>'')]))"
    by (simp add: block_re_def seqs_def)
  show ?thesis
    unfolding b using True a by (simp add: run_lit_i Let_def)
next
  case False
  have b: "block_re tag =
     Seq (lit_i (''<'' @ tag))
       (Seq WordB (seqs [Star not_lt, Star (tag_step tag), lit_i (''</'' @ tag @ ''>'')]))"
    by (simp add: block_re_def seqs_def)
  show ?thesis
    unfolding b using False by (simp add: run_lit_i Let_def)
qed

lemma run_block_None: "block_end tag s = None \<Longrightarrow> run (block_re tag) (p, s, c) = []"
proof (rule ccontr)
  assume n: "block_end tag s = None" and ne: "run (block_re tag) (p, s, c) \<noteq> []"
  then obtain st' where st': "st' \<in> set (run (block_re tag) (p, s, c))"
    by (cases "run (block_re tag) (p, s, c)") auto
  let ?n = "length (''<'' @ tag)"
  from st' have c: "starts_ci s (''<'' @ tag) \<and> at_boundary (Some (last (take ?n s))) (drop ?n s)"
    and m: "st' \<in> set (run (seqs [Star not_lt, Star (tag_step tag), lit_i (''</'' @ tag @ ''>'')])
             (Some (last (take ?n s)), drop ?n s, c))"
    unfolding run_block_re_unfold Let_def by (auto split: if_splits)
  from tail_sound [OF m] c n show False by (simp add: block_end_def Let_def)
qed

lemma run_block_Some:
  assumes "block_end tag s = Some rest"
  shows "run (block_re tag) (p, s, c) \<noteq> []"
    and "\<forall>st \<in> set (run (block_re tag) (p, s, c)). st = (Some CHR ''>'', rest, c)"
proof -
  let ?n = "length (''<'' @ tag)"
  let ?T = "seqs [Star not_lt, Star (tag_step tag), lit_i (''</'' @ tag @ ''>'')]"
  from assms have c: "starts_ci s (''<'' @ tag) \<and> at_boundary (Some (last (take ?n s))) (drop ?n s)"
    and af: "after_first_ci (''</'' @ tag @ ''>'') (drop ?n s) = Some rest"
    by (auto simp: block_end_def Let_def split: if_splits)
  have r: "run (block_re tag) (p, s, c) = run ?T (Some (last (take ?n s)), drop ?n s, c)"
    unfolding run_block_re_unfold Let_def using c by simp
  show "run (block_re tag) (p, s, c) \<noteq> []"
    unfolding r by (rule tail_complete [OF af])
  show "\<forall>st \<in> set (run (block_re tag) (p, s, c)). st = (Some CHR ''>'', rest, c)"
    unfolding r using tail_sound [of _ tag "Some (last (take ?n s))" "drop ?n s" c] af by auto
qed

lemma block_end_shorter: "block_end tag s = Some rest \<Longrightarrow> length rest < length s"
proof -
  assume a: "block_end tag s = Some rest"
  let ?n = "length (''<'' @ tag)"
  from a have c: "starts_ci s (''<'' @ tag)"
    and af: "after_first_ci (''</'' @ tag @ ''>'') (drop ?n s) = Some rest"
    by (auto simp: block_end_def Let_def split: if_splits)
  from c have "?n \<le> length s" by (simp add: starts_ci_def)
  with after_first_length [OF af] show ?thesis by simp
qed

text \<open>
  Replacing the matches of the block pattern is replacing the blocks of the specification.
\<close>

lemma replace_all_block:
  "replace_all (block_re tag) (\<lambda>m c. marker) p s = strip_blocks tag marker s"
proof (induction tag marker s arbitrary: p rule: strip_blocks.induct)
  case (1 tag marker)
  have "block_end tag [] = None" by (simp add: block_end_def)
  from run_block_None [OF this] show ?case
    by (subst replace_all.simps) simp
next
  case (2 tag marker x xs)
  show ?case
  proof (cases "block_end tag (x # xs)")
    case None
    from run_block_None [OF this, of p "[]"] "2.IH"(1) [OF None] None show ?thesis
      by (subst replace_all.simps) simp
  next
    case (Some rest)
    from block_end_shorter [OF Some] have l: "length rest < length (x # xs)" .
    from run_block_Some [OF Some, of p "[]"] obtain sts where
      r: "run (block_re tag) (p, x # xs, []) = (Some CHR ''>'', rest, []) # sts"
      by (cases "run (block_re tag) (p, x # xs, [])") auto
    from "2.IH"(2) [OF Some l] Some l r show ?thesis
      by (subst replace_all.simps) simp
  qed
qed

lemma sanitizeCode_strip:
  "sanitizeCode code =
     trim (strip_blocks ''iframe'' ''[REMOVED: iframe tag]''
             (strip_blocks ''script'' ''[REMOVED: script tag]'' code))"
  by (simp only: sanitizeCode_def replace_def script_re_def iframe_re_def replace_all_block)



section \<open>Context service: sanitizing\<close>

lemma block_end_not_lt: "x \<noteq> CHR ''<'' \<Longrightarrow> block_end tag (x # xs) = None"
  by (simp add: block_end_def)

lemma strip_blocks_text:
  "CHR ''<'' \<notin> set pre \<Longrightarrow> strip_blocks tag marker (pre @ s) = pre @ strip_blocks tag marker s"
  by (induction pre) (auto simp: block_end_not_lt)

lemma strip_blocks_plain: "CHR ''<'' \<notin> set s \<Longrightarrow> strip_blocks tag marker s = s"
  using strip_blocks_text [of s tag marker "[]"] by simp

lemma after_first_None:
  "after_first_ci l s = None \<Longrightarrow> i \<le> length s \<Longrightarrow> \<not> starts_ci (drop i s) l"
proof (induction s arbitrary: i)
  case Nil
  then show ?case by (auto split: if_splits)
next
  case (Cons x xs)
  then show ?case by (cases i) (auto split: if_splits)
qed

lemma starts_ci_append_long:
  "length l \<le> length v \<Longrightarrow> starts_ci (v @ r) l \<longleftrightarrow> starts_ci v l"
  by (simp add: starts_ci_def)

lemma starts_ci_straddle:
  assumes s: "starts_ci (v @ CHR ''<'' # r) l" and short: "length v < length l"
  shows "l ! length v = CHR ''<''"
proof -
  from s have m: "map ascii_upper (take (length l) (v @ CHR ''<'' # r)) = map ascii_upper l"
    and len: "length l \<le> length (v @ CHR ''<'' # r)"
    by (simp_all add: starts_ci_def)
  let ?X = "v @ CHR ''<'' # r"
  have k: "length v < length (take (length l) ?X)" using short len by simp
  have "map ascii_upper (take (length l) ?X) ! length v =
        ascii_upper (take (length l) ?X ! length v)"
    by (rule nth_map [OF k])
  also have "take (length l) ?X ! length v = ?X ! length v"
    by (rule nth_take [OF short])
  also have "ascii_upper (?X ! length v) = CHR ''<''" by simp
  finally have "map ascii_upper l ! length v = CHR ''<''" using m by simp
  then have "ascii_upper (l ! length v) = CHR ''<''" using short by simp
  then show ?thesis by simp
qed

text \<open>
  A body without a closing tag, followed by a closing tag: the first closing tag of the
  whole is the one that follows.
\<close>

lemma clear_body:
  assumes tag: "CHR ''<'' \<notin> set tag"
    and body: "\<not> contains_ci body (''</'' @ tag @ ''>'')"
  shows "clear (''</'' @ tag @ ''>'') body (CHR ''<'' # r)"
  unfolding clear_def
proof (intro allI impI)
  fix i assume i: "i < length body"
  let ?l = "''</'' @ tag @ ''>''"
  let ?v = "drop i body"
  from body have n: "after_first_ci ?l body = None" by (simp add: contains_ci_def)
  have d: "drop i (body @ CHR ''<'' # r) = ?v @ CHR ''<'' # r" using i by simp
  show "\<not> starts_ci (drop i (body @ CHR ''<'' # r)) ?l"
  proof
    assume a: "starts_ci (drop i (body @ CHR ''<'' # r)) ?l"
    show False
    proof (cases "length ?l \<le> length ?v")
      case True
      with a d have "starts_ci ?v ?l" by (simp only: starts_ci_append_long)
      with after_first_None [OF n, of i] i show False by simp
    next
      case False
      then have short: "length ?v < length ?l" by simp
      from a d have "starts_ci (?v @ CHR ''<'' # r) ?l" by simp
      from starts_ci_straddle [OF this short] have e: "?l ! length ?v = CHR ''<''" .
      have pos: "0 < length ?v" using i by simp
      then obtain k where k: "length ?v = Suc k" by (cases "length ?v") auto
      with short have "k < length (CHR ''/'' # tag @ ''>'')" by simp
      then have "(CHR ''/'' # tag @ ''>'') ! k \<in> set (CHR ''/'' # tag @ ''>'')"
        by (rule nth_mem)
      moreover from e k have "(CHR ''/'' # tag @ ''>'') ! k = CHR ''<''" by simp
      ultimately show False using tag by auto
    qed
  qed
qed

lemma block_end_script:
  assumes "\<not> contains_ci body ''</script>''"
  shows "block_end ''script'' (''<script>'' @ body @ ''</script>'' @ post) = Some post"
proof -
  have c: "clear ''</script>'' (CHR ''>'' # body) (''</script>'' @ post)"
    using clear_body [of "''script''" body "''/script>'' @ post"] assms
    by (simp add: clear_Cons)
  have s: "starts_ci (''</script>'' @ post) ''</script>''" by simp
  from after_first_clear [OF c s]
  have "after_first_ci ''</script>'' (CHR ''>'' # body @ ''</script>'' @ post) = Some post"
    by simp
  then show ?thesis
    by (simp add: block_end_def Let_def at_boundary_def is_word_def)
qed

lemma block_end_iframe:
  assumes "\<not> contains_ci body ''</iframe>''"
  shows "block_end ''iframe'' (''<iframe>'' @ body @ ''</iframe>'' @ post) = Some post"
proof -
  have c: "clear ''</iframe>'' (CHR ''>'' # body) (''</iframe>'' @ post)"
    using clear_body [of "''iframe''" body "''/iframe>'' @ post"] assms
    by (simp add: clear_Cons)
  have s: "starts_ci (''</iframe>'' @ post) ''</iframe>''" by simp
  from after_first_clear [OF c s]
  have "after_first_ci ''</iframe>'' (CHR ''>'' # body @ ''</iframe>'' @ post) = Some post"
    by simp
  then show ?thesis
    by (simp add: block_end_def Let_def at_boundary_def is_word_def)
qed


lemma strip_script_block:
  assumes "\<not> contains_ci body ''</script>''"
  shows "strip_blocks ''script'' marker (''<script>'' @ body @ ''</script>'' @ post) =
         marker @ strip_blocks ''script'' marker post"
proof -
  from block_end_script [OF assms, of post]
  have "block_end ''script'' (CHR ''<'' # ''script>'' @ body @ ''</script>'' @ post) = Some post"
    by simp
  then show ?thesis by simp
qed

lemma strip_iframe_block:
  assumes "\<not> contains_ci body ''</iframe>''"
  shows "strip_blocks ''iframe'' marker (''<iframe>'' @ body @ ''</iframe>'' @ post) =
         marker @ strip_blocks ''iframe'' marker post"
proof -
  from block_end_iframe [OF assms, of post]
  have "block_end ''iframe'' (CHR ''<'' # ''iframe>'' @ body @ ''</iframe>'' @ post) = Some post"
    by simp
  then show ?thesis by simp
qed

lemma contains_ci_lt:
  "CHR ''<'' \<notin> set s \<Longrightarrow> \<not> contains_ci s (CHR ''<'' # l)"
  unfolding contains_ci_def by (induction s) auto

lemma strip_script_over_iframe:
  assumes "CHR ''<'' \<notin> set body" "CHR ''<'' \<notin> set post"
  shows "strip_blocks ''script'' marker (''<iframe>'' @ body @ ''</iframe>'' @ post) =
         ''<iframe>'' @ body @ ''</iframe>'' @ post"
proof -
  have a: "block_end ''script'' (CHR ''<'' # CHR ''i'' # xs) = None" for xs
    by (simp add: block_end_def ascii_upper_def)
  have b: "block_end ''script'' (CHR ''<'' # CHR ''/'' # xs) = None" for xs
    by (simp add: block_end_def ascii_upper_def)
  have "strip_blocks ''script'' marker (''</iframe>'' @ post) = ''</iframe>'' @ post"
    using assms(2) by (simp add: b block_end_not_lt strip_blocks_plain)
  then have "strip_blocks ''script'' marker (body @ ''</iframe>'' @ post) =
             body @ ''</iframe>'' @ post"
    by (simp only: strip_blocks_text [OF assms(1)])
  then show ?thesis
    by (simp add: a block_end_not_lt)
qed

lemma contains_ci_Cons:
  "contains_ci (x # xs) l \<longleftrightarrow> starts_ci (x # xs) l \<or> contains_ci xs l"
  by (simp add: contains_ci_def)

lemma block_end_no_start:
  assumes "\<not> starts_ci s (''<'' @ tag)"
  shows "block_end tag s = None"
  unfolding block_end_def Let_def using assms by (simp only: simp_thms if_False)

lemma strip_blocks_none:
  "\<not> contains_ci s (CHR ''<'' # tag) \<Longrightarrow> strip_blocks tag marker s = s"
proof (induction s)
  case Nil
  then show ?case by simp
next
  case (Cons x xs)
  then have n: "\<not> starts_ci (x # xs) (''<'' @ tag)" and r: "\<not> contains_ci xs (CHR ''<'' # tag)"
    by (simp_all add: contains_ci_Cons)
  from n have "block_end tag (x # xs) = None" by (rule block_end_no_start)
  with Cons.IH [OF r] show ?case by simp
qed

lemma starts_ci_straddle_unit:
  assumes s: "starts_ci (v @ y # r) l" and short: "length v < length l"
  shows "ascii_upper (l ! length v) = ascii_upper y"
proof -
  let ?X = "v @ y # r"
  from s have m: "map ascii_upper (take (length l) ?X) = map ascii_upper l"
    and len: "length l \<le> length ?X"
    by (simp_all add: starts_ci_def)
  have k: "length v < length (take (length l) ?X)" using short len by simp
  have "map ascii_upper (take (length l) ?X) ! length v =
        ascii_upper (take (length l) ?X ! length v)"
    by (rule nth_map [OF k])
  also have "take (length l) ?X ! length v = ?X ! length v"
    by (rule nth_take [OF short])
  also have "?X ! length v = y" by simp
  finally have "map ascii_upper l ! length v = ascii_upper y" using m by simp
  then show ?thesis using short by simp
qed

text \<open>
  No occurrence of a literal in \<open>a\<close>, none in what follows, and the first code unit that
  follows is not one of the literal's code units after the first: none in the whole.
\<close>

lemma not_contains_append:
  assumes a: "\<not> contains_ci a l" and b: "\<not> contains_ci (y # r) l"
    and y: "ascii_upper y \<notin> ascii_upper ` set (tl l)"
  shows "\<not> contains_ci (a @ y # r) l"
  using a
proof (induction a)
  case Nil
  with b show ?case by simp
next
  case (Cons x a)
  then have n: "\<not> starts_ci (x # a) l" and r: "\<not> contains_ci a l"
    by (simp_all add: contains_ci_Cons)
  have "\<not> starts_ci ((x # a) @ y # r) l"
  proof
    assume s: "starts_ci ((x # a) @ y # r) l"
    show False
    proof (cases "length l \<le> length (x # a)")
      case True
      with s have "starts_ci (x # a) l" by (simp only: starts_ci_append_long)
      with n show False by simp
    next
      case False
      then have short: "length (x # a) < length l" by simp
      from starts_ci_straddle_unit [OF s short]
      have e: "ascii_upper (l ! length (x # a)) = ascii_upper y" .
      from short obtain z t where l: "l = z # t" by (cases l) auto
      with short have "length a < length t" by simp
      then have "t ! length a \<in> set t" by (rule nth_mem)
      with l have "l ! length (x # a) \<in> set (tl l)" by simp
      then have "ascii_upper (l ! length (x # a)) \<in> ascii_upper ` set (tl l)" by (rule imageI)
      with e y show False by simp
    qed
  qed
  with Cons.IH [OF r] show ?case by (simp add: contains_ci_Cons)
qed

lemma contains_ci_no_lt:
  "CHR ''<'' \<notin> set a \<Longrightarrow> contains_ci (a @ b) (CHR ''<'' # t) \<longleftrightarrow> contains_ci b (CHR ''<'' # t)"
  by (induction a) (auto simp: contains_ci_Cons)

lemma clear_next:
  assumes a: "\<not> contains_ci a l" and y: "ascii_upper y \<notin> ascii_upper ` set (tl l)"
  shows "clear l a (y # r)"
  unfolding clear_def
proof (intro allI impI)
  fix i assume i: "i < length a"
  let ?v = "drop i a"
  from a have n: "after_first_ci l a = None" by (simp add: contains_ci_def)
  have d: "drop i (a @ y # r) = ?v @ y # r" using i by simp
  show "\<not> starts_ci (drop i (a @ y # r)) l"
  proof
    assume s: "starts_ci (drop i (a @ y # r)) l"
    show False
    proof (cases "length l \<le> length ?v")
      case True
      with s d have "starts_ci ?v l" by (simp only: starts_ci_append_long)
      with after_first_None [OF n, of i] i show False by simp
    next
      case False
      then have short: "length ?v < length l" by simp
      from s d have "starts_ci (?v @ y # r) l" by simp
      from starts_ci_straddle_unit [OF this short]
      have e: "ascii_upper (l ! length ?v) = ascii_upper y" .
      have pos: "0 < length ?v" using i by simp
      then obtain k where k: "length ?v = Suc k" by (cases "length ?v") auto
      from short obtain z t where l: "l = z # t" by (cases l) auto
      with short k have "k < length t" by simp
      then have "t ! k \<in> set t" by (rule nth_mem)
      with l k have "l ! length ?v \<in> set (tl l)" by simp
      then have "ascii_upper (l ! length ?v) \<in> ascii_upper ` set (tl l)" by (rule imageI)
      with e y show False by simp
    qed
  qed
qed

lemma strip_blocks_clear:
  "clear (CHR ''<'' # tag) pre s \<Longrightarrow>
   strip_blocks tag marker (pre @ s) = pre @ strip_blocks tag marker s"
proof (induction pre)
  case Nil
  then show ?case by simp
next
  case (Cons x pre)
  then have n: "\<not> starts_ci (x # pre @ s) (''<'' @ tag)" and r: "clear (CHR ''<'' # tag) pre s"
    by (simp_all add: clear_Cons)
  from n have "block_end tag (x # pre @ s) = None" by (rule block_end_no_start)
  with Cons.IH [OF r] show ?case by simp
qed


lemma upper_not_in_tag:
  "ascii_upper CHR ''<'' \<notin> ascii_upper ` set (tl ''<script'')"
  "ascii_upper CHR ''<'' \<notin> ascii_upper ` set (tl ''<iframe'')"
  "ascii_upper CHR ''['' \<notin> ascii_upper ` set (tl ''<script'')"
  "ascii_upper CHR ''['' \<notin> ascii_upper ` set (tl ''<iframe'')"
  by (simp_all add: ascii_upper_def)

lemma script_block_alone:
  assumes pre: "\<not> contains_ci pre ''<script''" and post: "\<not> contains_ci post ''<script''"
    and body: "\<not> contains_ci body ''</script>''"
  shows "strip_blocks ''script'' marker (pre @ ''<script>'' @ body @ ''</script>'' @ post) =
         pre @ marker @ post"
proof -
  have c: "clear ''<script'' pre (CHR ''<'' # ''script>'' @ body @ ''</script>'' @ post)"
    by (rule clear_next [OF pre upper_not_in_tag(1)])
  have "strip_blocks ''script'' marker (pre @ ''<script>'' @ body @ ''</script>'' @ post) =
        pre @ strip_blocks ''script'' marker (''<script>'' @ body @ ''</script>'' @ post)"
    using strip_blocks_clear [OF c, of marker] by simp
  also have "\<dots> = pre @ marker @ strip_blocks ''script'' marker post"
    by (simp only: strip_script_block [OF body])
  also have "\<dots> = pre @ marker @ post"
    by (simp only: strip_blocks_none [OF post])
  finally show ?thesis .
qed

lemma iframe_block_alone:
  assumes pre: "\<not> contains_ci pre ''<iframe''" and post: "\<not> contains_ci post ''<iframe''"
    and body: "\<not> contains_ci body ''</iframe>''"
  shows "strip_blocks ''iframe'' marker (pre @ ''<iframe>'' @ body @ ''</iframe>'' @ post) =
         pre @ marker @ post"
proof -
  have c: "clear ''<iframe'' pre (CHR ''<'' # ''iframe>'' @ body @ ''</iframe>'' @ post)"
    by (rule clear_next [OF pre upper_not_in_tag(2)])
  have "strip_blocks ''iframe'' marker (pre @ ''<iframe>'' @ body @ ''</iframe>'' @ post) =
        pre @ strip_blocks ''iframe'' marker (''<iframe>'' @ body @ ''</iframe>'' @ post)"
    using strip_blocks_clear [OF c, of marker] by simp
  also have "\<dots> = pre @ marker @ strip_blocks ''iframe'' marker post"
    by (simp only: strip_iframe_block [OF body])
  also have "\<dots> = pre @ marker @ post"
    by (simp only: strip_blocks_none [OF post])
  finally show ?thesis .
qed

lemma no_iframe_around_marker:
  assumes pre: "\<not> contains_ci pre ''<iframe''" and post: "\<not> contains_ci post ''<iframe''"
  shows "\<not> contains_ci (pre @ ''[REMOVED: script tag]'' @ post) ''<iframe''"
proof -
  have "CHR ''<'' \<notin> set ''[REMOVED: script tag]''" by simp
  from contains_ci_no_lt [OF this, of post "''iframe''"] post
  have "\<not> contains_ci (''[REMOVED: script tag]'' @ post) ''<iframe''" by simp
  then have m: "\<not> contains_ci (CHR ''['' # ''REMOVED: script tag]'' @ post) ''<iframe''" by simp
  from not_contains_append [OF pre m upper_not_in_tag(4)] show ?thesis by simp
qed

lemma no_script_around_iframe:
  assumes pre: "\<not> contains_ci pre ''<script''" and post: "\<not> contains_ci post ''<script''"
    and body: "\<not> contains_ci body ''<script''"
  shows "\<not> contains_ci (pre @ ''<iframe>'' @ body @ ''</iframe>'' @ post) ''<script''"
proof -
  have 1: "\<not> contains_ci (CHR ''<'' # ''/iframe>'' @ post) ''<script''"
    using post by (simp add: contains_ci_Cons ascii_upper_def)
  have 2: "\<not> contains_ci (body @ CHR ''<'' # ''/iframe>'' @ post) ''<script''"
    by (rule not_contains_append [OF body 1 upper_not_in_tag(1)])
  have 3: "\<not> contains_ci (CHR ''<'' # ''iframe>'' @ body @ CHR ''<'' # ''/iframe>'' @ post) ''<script''"
    using 2 by (simp add: contains_ci_Cons ascii_upper_def)
  from not_contains_append [OF pre 3 upper_not_in_tag(1)] show ?thesis by simp
qed

text \<open>
  C9. For every input, \<open>sanitizeCode\<close> first puts the script marker in place of every script
  block of the input (from \<open><script\<close> at a word edge to the first \<open></script>\<close>, any letter
  case), then puts the iframe marker in place of every iframe block of the text so obtained,
  and trims the white space at both ends. For a script block between two texts that hold
  neither \<open><script\<close> nor \<open><iframe\<close>, the result is the two texts, unchanged, around the
  marker, trimmed; the same for an iframe block whose body holds no \<open><script\<close>.
\<close>

theorem sanitizeCode_spec:
  "sanitizeCode code =
     trim (strip_blocks ''iframe'' ''[REMOVED: iframe tag]''
             (strip_blocks ''script'' ''[REMOVED: script tag]'' code))
   \<and> (\<not> contains_ci pre ''<script'' \<and> \<not> contains_ci pre ''<iframe'' \<and>
       \<not> contains_ci post ''<script'' \<and> \<not> contains_ci post ''<iframe'' \<and>
       \<not> contains_ci body ''</script>'' \<longrightarrow>
        sanitizeCode (pre @ ''<script>'' @ body @ ''</script>'' @ post) =
          trim (pre @ ''[REMOVED: script tag]'' @ post))
   \<and> (\<not> contains_ci pre ''<script'' \<and> \<not> contains_ci pre ''<iframe'' \<and>
       \<not> contains_ci post ''<script'' \<and> \<not> contains_ci post ''<iframe'' \<and>
       \<not> contains_ci body ''<script'' \<and> \<not> contains_ci body ''</iframe>'' \<longrightarrow>
        sanitizeCode (pre @ ''<iframe>'' @ body @ ''</iframe>'' @ post) =
          trim (pre @ ''[REMOVED: iframe tag]'' @ post))"
proof (intro conjI impI)
  show "sanitizeCode code =
     trim (strip_blocks ''iframe'' ''[REMOVED: iframe tag]''
             (strip_blocks ''script'' ''[REMOVED: script tag]'' code))"
    by (rule sanitizeCode_strip)
next
  assume a: "\<not> contains_ci pre ''<script'' \<and> \<not> contains_ci pre ''<iframe'' \<and>
       \<not> contains_ci post ''<script'' \<and> \<not> contains_ci post ''<iframe'' \<and>
       \<not> contains_ci body ''</script>''"
  then have ps: "\<not> contains_ci pre ''<script''" and pi: "\<not> contains_ci pre ''<iframe''"
    and qs: "\<not> contains_ci post ''<script''" and qi: "\<not> contains_ci post ''<iframe''"
    and b: "\<not> contains_ci body ''</script>''" by simp_all
  let ?ms = "''[REMOVED: script tag]''"
  have 1: "strip_blocks ''script'' ?ms (pre @ ''<script>'' @ body @ ''</script>'' @ post) =
           pre @ ?ms @ post"
    by (rule script_block_alone [OF ps qs b])
  have 2: "strip_blocks ''iframe'' ''[REMOVED: iframe tag]'' (pre @ ?ms @ post) = pre @ ?ms @ post"
    by (rule strip_blocks_none) (rule no_iframe_around_marker [OF pi qi])
  show "sanitizeCode (pre @ ''<script>'' @ body @ ''</script>'' @ post) =
          trim (pre @ ''[REMOVED: script tag]'' @ post)"
    by (simp only: sanitizeCode_strip 1 2)
next
  assume a: "\<not> contains_ci pre ''<script'' \<and> \<not> contains_ci pre ''<iframe'' \<and>
       \<not> contains_ci post ''<script'' \<and> \<not> contains_ci post ''<iframe'' \<and>
       \<not> contains_ci body ''<script'' \<and> \<not> contains_ci body ''</iframe>''"
  then have ps: "\<not> contains_ci pre ''<script''" and pi: "\<not> contains_ci pre ''<iframe''"
    and qs: "\<not> contains_ci post ''<script''" and qi: "\<not> contains_ci post ''<iframe''"
    and bs: "\<not> contains_ci body ''<script''" and b: "\<not> contains_ci body ''</iframe>''"
    by simp_all
  let ?mi = "''[REMOVED: iframe tag]''"
  have 1: "strip_blocks ''script'' ''[REMOVED: script tag]''
             (pre @ ''<iframe>'' @ body @ ''</iframe>'' @ post) =
           pre @ ''<iframe>'' @ body @ ''</iframe>'' @ post"
    by (rule strip_blocks_none) (rule no_script_around_iframe [OF ps qs bs])
  have 2: "strip_blocks ''iframe'' ?mi (pre @ ''<iframe>'' @ body @ ''</iframe>'' @ post) =
           pre @ ?mi @ post"
    by (rule iframe_block_alone [OF pi qi b])
  show "sanitizeCode (pre @ ''<iframe>'' @ body @ ''</iframe>'' @ post) =
          trim (pre @ ''[REMOVED: iframe tag]'' @ post)"
    by (simp only: sanitizeCode_strip 1 2)
qed

theorem sanitizeCode_spec_witness:
  "sanitizeCode ''  if (a < b) run(); <script>if (a < 2) alert(a)</script> let b = 2;  '' =
     ''if (a < b) run(); [REMOVED: script tag] let b = 2;''
   \<and> sanitizeCode ''</p> before <iframe>x < y</iframe> after'' =
     ''</p> before [REMOVED: iframe tag] after''"
proof -
  have h: "\<not> contains_ci ''  if (a < b) run(); '' ''<script''"
    "\<not> contains_ci ''  if (a < b) run(); '' ''<iframe''"
    "\<not> contains_ci '' let b = 2;  '' ''<script''"
    "\<not> contains_ci '' let b = 2;  '' ''<iframe''"
    "\<not> contains_ci ''if (a < 2) alert(a)'' ''</script>''"
    by code_simp+
  have g: "\<not> contains_ci ''</p> before '' ''<script''"
    "\<not> contains_ci ''</p> before '' ''<iframe''"
    "\<not> contains_ci '' after'' ''<script''"
    "\<not> contains_ci '' after'' ''<iframe''"
    "\<not> contains_ci ''x < y'' ''<script''"
    "\<not> contains_ci ''x < y'' ''</iframe>''"
    by code_simp+
  have t: "trim (''  if (a < b) run(); '' @ ''[REMOVED: script tag]'' @ '' let b = 2;  '') =
           ''if (a < b) run(); [REMOVED: script tag] let b = 2;''"
    "trim (''</p> before '' @ ''[REMOVED: iframe tag]'' @ '' after'') =
           ''</p> before [REMOVED: iframe tag] after''"
    by code_simp+
  from sanitizeCode_spec [of "[]" "''  if (a < b) run(); ''" "'' let b = 2;  ''"
      "''if (a < 2) alert(a)''", THEN conjunct2, THEN conjunct1] h t(1)
  have 1: "sanitizeCode ''  if (a < b) run(); <script>if (a < 2) alert(a)</script> let b = 2;  '' =
     ''if (a < b) run(); [REMOVED: script tag] let b = 2;''" by simp
  from sanitizeCode_spec [of "[]" "''</p> before ''" "'' after''" "''x < y''",
      THEN conjunct2, THEN conjunct2] g t(2)
  have 2: "sanitizeCode ''</p> before <iframe>x < y</iframe> after'' =
           ''</p> before [REMOVED: iframe tag] after''"
    by simp
  from 1 2 show ?thesis by simp
qed

text \<open>
  A text in which a script block begins inside an iframe block and ends behind it: the text
  holds an iframe block (up to \<open></iframe>\<close>), yet the result holds no iframe marker and keeps
  \<open><iframe>\<close>.
\<close>

theorem sanitizeCode_interleaved:
  "block_end ''iframe'' ''<iframe><script></iframe></script>'' = Some ''</script>''
   \<and> sanitizeCode ''<iframe><script></iframe></script>'' = ''<iframe>[REMOVED: script tag]''
   \<and> \<not> str_includes (sanitizeCode ''<iframe><script></iframe></script>'') ''[REMOVED: iframe tag]''"
proof (intro conjI)
  show "block_end ''iframe'' ''<iframe><script></iframe></script>'' = Some ''</script>''"
    by code_simp
  show "sanitizeCode ''<iframe><script></iframe></script>'' = ''<iframe>[REMOVED: script tag]''"
    by code_simp
  show "\<not> str_includes (sanitizeCode ''<iframe><script></iframe></script>'') ''[REMOVED: iframe tag]''"
    by code_simp
qed



section \<open>AI service: formatting\<close>

lemma run_lit:
  "run (lit l) (p, s, c) =
     (if startsWith s l then [(after p l, drop (length l) s, c)] else [])"
proof (induction l arbitrary: p s)
  case Nil
  then show ?case by (simp add: lit_def seqs_def startsWith_def)
next
  case (Cons x l)
  have u: "lit (x # l) = Seq (chr x) (lit l)" by (simp add: lit_def seqs_def)
  show ?case
  proof (cases s)
    case Nil
    then show ?thesis by (simp add: u chr_def startsWith_def)
  next
    case (Cons y s')
    then show ?thesis by (auto simp: u chr_def Cons.IH startsWith_def)
  qed
qed

lemma lazy_cls_set:
  "set (run (Lazy (Cls P)) (p, s, c)) =
     {(after p u, v, c) | u v. s = u @ v \<and> (\<forall>x \<in> set u. P x)}"
proof (induction s arbitrary: p)
  case Nil
  then show ?case by (auto simp: progress_def run_Lazy)
next
  case (Cons x xs)
  show ?case
  proof (cases "P x")
    case True
    have "set (run (Lazy (Cls P)) (p, x # xs, c)) =
          set (run (Lazy (Cls P)) (Some x, xs, c)) \<union> {(p, x # xs, c)}"
      using True by (subst run_Lazy) (simp add: progress_def)
    also have "\<dots> = set (run (Star (Cls P)) (Some x, xs, c)) \<union> {(p, x # xs, c)}"
      by (simp only: Cons.IH star_cls_set)
    also have "\<dots> = set (run (Star (Cls P)) (p, x # xs, c))"
      using True by (subst (2) run_Star) (simp add: progress_def)
    finally show ?thesis by (simp only: star_cls_set)
  next
    case False
    have "set (run (Lazy (Cls P)) (p, x # xs, c)) = {(p, x # xs, c)}"
      using False by (subst run_Lazy) (simp add: progress_def)
    also have "\<dots> = set (run (Star (Cls P)) (p, x # xs, c))"
      using False by (subst run_Star) (simp add: progress_def)
    finally show ?thesis by (simp only: star_cls_set)
  qed
qed

lemma many1_cls_set:
  "set (run (many1 (Cls P)) (p, s, c)) =
     {(after p u, v, c) | u v. s = u @ v \<and> u \<noteq> [] \<and> (\<forall>x \<in> set u. P x)}"
proof (cases s)
  case Nil
  then show ?thesis by (auto simp: many1_def)
next
  case (Cons x xs)
  show ?thesis
  proof (cases "P x")
    case True
    have "set (run (many1 (Cls P)) (p, s, c)) =
          {(after (Some x) u, v, c) | u v. xs = u @ v \<and> (\<forall>x \<in> set u. P x)}"
      using True Cons by (simp add: many1_def star_cls_set)
    also have "\<dots> = {(after p u, v, c) | u v. s = u @ v \<and> u \<noteq> [] \<and> (\<forall>x \<in> set u. P x)}"
      (is "?L = ?R")
    proof (intro set_eqI iffI)
      fix st assume "st \<in> ?L"
      then obtain u v where "st = (after (Some x) u, v, c)" "xs = u @ v" "\<forall>x \<in> set u. P x"
        by auto
      then have "st = (after p (x # u), v, c) \<and> s = (x # u) @ v \<and> x # u \<noteq> [] \<and>
          (\<forall>y \<in> set (x # u). P y)" using True Cons by simp
      then show "st \<in> ?R" by blast
    next
      fix st assume "st \<in> ?R"
      then obtain u v where st: "st = (after p u, v, c)" and e: "s = u @ v" and ne: "u \<noteq> []"
        and P: "\<forall>x \<in> set u. P x" by auto
      from ne obtain y u' where u: "u = y # u'" by (cases u) auto
      with e Cons st P have "st = (after (Some x) u', v, c)" "xs = u' @ v" "\<forall>x \<in> set u'. P x"
        by auto
      then show "st \<in> ?L" by blast
    qed
    finally show ?thesis .
  next
    case False
    then show ?thesis using Cons by (auto simp: many1_def Cons_eq_append_conv)
  qed
qed

text \<open>Where the pattern matches at no position, \<open>replace\<close> returns the text as it is.\<close>

lemma replace_all_no_match:
  "(\<And>p' u v. s = u @ v \<Longrightarrow> run r (p', v, []) = []) \<Longrightarrow> replace_all r f p s = s"
proof (induction s arbitrary: p)
  case Nil
  from Nil [of "[]" "[]"] show ?case by (subst replace_all.simps) simp
next
  case (Cons x xs)
  have 1: "run r (p, x # xs, []) = []" using Cons.prems [of "[]" "x # xs"] by simp
  have 2: "replace_all r f (Some x) xs = xs"
  proof (rule Cons.IH)
    fix p' u v assume "xs = u @ v"
    then have "x # xs = (x # u) @ v" by simp
    from Cons.prems [OF this] show "run r (p', v, []) = []" .
  qed
  show ?case by (subst replace_all.simps) (simp add: 1 2)
qed

text \<open>Replacing the matches of a one-character class works character by character.\<close>

lemma replace_all_cls:
  "replace_all (Cls P) f p s = concat (map (\<lambda>x. if P x then f [x] [] else [x]) s)"
proof (induction s arbitrary: p)
  case Nil
  show ?case by (subst replace_all.simps) simp
next
  case (Cons x xs)
  show ?case by (subst replace_all.simps) (simp add: Cons.IH)
qed

lemma escapeHtml_eq: "escapeHtml s = escape_text s"
proof -
  let ?P = "\<lambda>c. c \<in> set [CHR ''&'', CHR ''<'', CHR ''>'', CHR 0x22, CHR 0x27]"
  let ?f = "\<lambda>(char :: string) (c :: caps).
          case map_of [(''&'', ''&amp;''), (''<'', ''&lt;''), (''>'', ''&gt;''),
                       ([CHR 0x22], ''&quot;''), ([CHR 0x27], ''&#039;'')] char of
            Some e \<Rightarrow> e
          | None \<Rightarrow> ''undefined''"
  have e: "(\<lambda>x. if ?P x then ?f [x] [] else [x]) = escape_unit"
    by (rule ext) (simp add: escape_unit_def)
  have "escapeHtml s = replace_all (Cls ?P) ?f None s"
    by (simp only: escapeHtml_def replace_def)
  also have "\<dots> = concat (map (\<lambda>x. if ?P x then ?f [x] [] else [x]) s)"
    by (rule replace_all_cls)
  also have "\<dots> = escape_text s"
    by (simp only: e escape_text_def)
  finally show ?thesis .
qed


lemma is_word_not_special:
  "is_word c \<Longrightarrow> c \<noteq> CHR 0x0A \<and> c \<noteq> CHR 0x60 \<and> c \<noteq> CHR ''*'' \<and> c \<noteq> CHR ''<'' \<and> c \<noteq> CHR 0x22"
  by (auto simp: is_word_def)

lemma word_prefix_split:
  assumes e: "lang @ CHR 0x0A # r = u @ v" and u: "\<forall>x \<in> set u. is_word x"
    and l: "\<forall>x \<in> set lang. is_word x"
  shows "(\<exists>v'. v = CHR 0x0A # v') \<longleftrightarrow> u = lang"
proof -
  from e consider w where "lang = u @ w" "v = w @ CHR 0x0A # r"
    | w where "u = lang @ w" "w \<noteq> []" "CHR 0x0A # r = w @ v"
    by (auto simp: append_eq_append_conv2) (metis append_Nil2)
  then show ?thesis
  proof cases
    case 1
    show ?thesis
    proof (cases w)
      case Nil
      with 1 show ?thesis by simp
    next
      case (Cons y w')
      with 1 l have "is_word y" by simp
      with is_word_not_special have "y \<noteq> CHR 0x0A" by blast
      with 1 Cons show ?thesis by auto
    qed
  next
    case 2
    then obtain w' where "w = CHR 0x0A # w'" by (cases w) auto
    with 2 u have "is_word (CHR 0x0A)" by simp
    with is_word_not_special show ?thesis by blast
  qed
qed

lemma fence_close_split:
  assumes e: "body @ ''```'' = u @ ''```'' @ v'" and b: "CHR 0x60 \<notin> set body"
  shows "u = body \<and> v' = []"
proof -
  from e consider w where "body = u @ w" "w @ ''```'' = ''```'' @ v'"
    | w where "u = body @ w" "''```'' = w @ ''```'' @ v'"
    by (auto simp: append_eq_append_conv2)
  then show ?thesis
  proof cases
    case 1
    show ?thesis
    proof (cases w)
      case Nil
      with 1 show ?thesis by simp
    next
      case (Cons y w')
      with 1 have "y = CHR 0x60" by simp
      with 1 Cons b show ?thesis by simp
    qed
  next
    case 2
    from 2(2) have "length ''```'' = length (w @ ''```'' @ v')" by (rule arg_cong)
    then have "w = [] \<and> v' = []" by simp
    with 2 show ?thesis by simp
  qed
qed

lemma group_set:
  assumes "set (run a (q, s, c)) = {(f u, v, c) | u v. s = u @ v \<and> Q u}"
  shows "set (run (Group n a) (q, s, c)) = {(f u, v, (n, u) # c) | u v. s = u @ v \<and> Q u}"
proof (intro set_eqI iffI)
  fix st assume "st \<in> set (run (Group n a) (q, s, c))"
  then obtain p' s' c' where m: "(p', s', c') \<in> set (run a (q, s, c))"
    and st: "st = (p', s', (n, take (length s - length s') s) # c')" by auto
  from m obtain u v where "p' = f u" "s' = v" "c' = c" "s = u @ v" "Q u"
    unfolding assms by blast
  with st have "st = (f u, v, (n, u) # c) \<and> s = u @ v \<and> Q u" by simp
  then show "st \<in> {(f u, v, (n, u) # c) | u v. s = u @ v \<and> Q u}" by blast
next
  fix st assume "st \<in> {(f u, v, (n, u) # c) | u v. s = u @ v \<and> Q u}"
  then obtain u v where st: "st = (f u, v, (n, u) # c)" and e: "s = u @ v" and Q: "Q u" by blast
  then have "(f u, v, c) \<in> set (run a (q, s, c))" unfolding assms by blast
  then have "(f u, v, (n, take (length s - length v) s) # c) \<in> set (run (Group n a) (q, s, c))"
    by force
  with st e show "st \<in> set (run (Group n a) (q, s, c))" by simp
qed

lemma fence_match:
  assumes l: "\<forall>x \<in> set lang. is_word x" and b: "CHR 0x60 \<notin> set body"
  shows "run fence_re (p, ''```'' @ lang @ CHR 0x0A # body @ ''```'', []) \<noteq> []"
    and "\<forall>st \<in> set (run fence_re (p, ''```'' @ lang @ CHR 0x0A # body @ ''```'', [])).
           st = (Some CHR 0x60, [], (2, body) # (if lang = [] then [] else [(1, lang)]))"
proof -
  let ?in = "''```'' @ lang @ CHR 0x0A # body @ ''```''"
  let ?s0 = "lang @ CHR 0x0A # body @ ''```''"
  let ?R = "body @ ''```''"
  let ?c1 = "if lang = [] then [] else [(1, lang)]"
  let ?fin = "(Some CHR 0x60, [], (2, body) # ?c1)"
  define G2 where "G2 = Group 2 (Lazy any_unit)"
  define K2 where "K2 = Seq G2 (Seq (lit ''```'') Eps)"
  define K where "K = Seq (chr CHR 0x0A) K2"
  define G1 where "G1 = Group 1 (many1 (Cls is_word))"
  have f: "fence_re = Seq (lit ''```'') (Seq (opt G1) K)"
    by (simp add: fence_re_def seqs_def K_def K2_def G1_def G2_def)
  have r0: "run fence_re (p, ?in, []) = run (Seq (opt G1) K) (Some CHR 0x60, ?s0, [])"
    unfolding f by (simp add: run_lit startsWith_def)
  have g2: "set (run G2 (q, s, c)) =
      {(after q u, v, (2, u) # c) | u v. s = u @ v \<and> True}" for q s c
    unfolding G2_def by (rule group_set) (simp add: any_unit_def lazy_cls_set)
  have g1: "set (run G1 (q, s, c)) =
      {(after q u, v, (1, u) # c) | u v. s = u @ v \<and> u \<noteq> [] \<and> (\<forall>x \<in> set u. is_word x)}" for q s c
    unfolding G1_def
    by (rule group_set [where Q = "\<lambda>u. u \<noteq> [] \<and> (\<forall>x \<in> set u. is_word x)"])
       (simp add: many1_cls_set)
  have k2: "set (run K2 (q, ?R, c)) = {(Some CHR 0x60, [], (2, body) # c)}" for q c
  proof (intro set_eqI iffI)
    fix st assume "st \<in> set (run K2 (q, ?R, c))"
    then obtain st1 where m1: "st1 \<in> set (run G2 (q, ?R, c))"
      and m2: "st \<in> set (run (Seq (lit ''```'') Eps) st1)"
      unfolding K2_def run_Seq_set by blast
    from m1 obtain u v where R: "?R = u @ v" and st1: "st1 = (after q u, v, (2, u) # c)"
      unfolding g2 by blast
    from m2 have sw: "startsWith v ''```''"
      and st: "st = (after (after q u) ''```'', drop (length ''```'') v, (2, u) # c)"
      unfolding st1 by (auto simp: run_lit split: if_splits)
    from sw obtain v' where v: "v = ''```'' @ v'" by (auto simp: startsWith_iff)
    from fence_close_split [OF R [unfolded v] b] have "u = body" "v' = []" by simp_all
    with st v R show "st \<in> {(Some CHR 0x60, [], (2, body) # c)}" by simp
  next
    fix st :: mstate assume "st \<in> {(Some CHR 0x60, [], (2, body) # c)}"
    then have st: "st = (Some CHR 0x60, [], (2, body) # c)" by simp
    have "(after q body, ''```'', (2, body) # c) \<in> set (run G2 (q, ?R, c))"
      unfolding g2 by blast
    moreover have "st \<in> set (run (Seq (lit ''```'') Eps) (after q body, ''```'', (2, body) # c))"
      by (simp add: run_lit startsWith_def st)
    ultimately show "st \<in> set (run K2 (q, ?R, c))"
      unfolding K2_def by (subst run_Seq_set) blast
  qed
  have k: "set (run K (q, v, c)) = (if \<exists>v'. v = CHR 0x0A # v' then set (run K2 (Some CHR 0x0A, tl v, c)) else {})"
    for q v c
    unfolding K_def by (cases v) (auto simp: chr_def)
  have kR: "set (run K (q, CHR 0x0A # ?R, c)) = {(Some CHR 0x60, [], (2, body) # c)}" for q c
    unfolding k by (simp add: k2)
  have o: "set (run (opt G1) st0) = set (run G1 st0) \<union> {st0}" for st0
    unfolding opt_def by simp
  have all: "set (run (Seq (opt G1) K) (Some CHR 0x60, ?s0, [])) = {?fin}"
  proof (intro set_eqI iffI)
    fix st assume "st \<in> set (run (Seq (opt G1) K) (Some CHR 0x60, ?s0, []))"
    then obtain st1 where m1: "st1 \<in> set (run (opt G1) (Some CHR 0x60, ?s0, []))"
      and m2: "st \<in> set (run K st1)"
      unfolding run_Seq_set by blast
    from m1 have "st1 \<in> set (run G1 (Some CHR 0x60, ?s0, [])) \<or> st1 = (Some CHR 0x60, ?s0, [])"
      unfolding o by blast
    with m2 consider u v where "?s0 = u @ v" "u \<noteq> []" "\<forall>x \<in> set u. is_word x"
        "st \<in> set (run K (after (Some CHR 0x60) u, v, [(1, u)]))"
      | "st \<in> set (run K (Some CHR 0x60, ?s0, []))"
      unfolding g1 by blast
    then show "st \<in> {?fin}"
    proof cases
      case 1
      from 1(4) have nl: "\<exists>v'. v = CHR 0x0A # v'" unfolding k by (auto split: if_splits)
      with word_prefix_split [OF 1(1) 1(3) l] have ul: "u = lang" by simp
      with 1(1) have v: "v = CHR 0x0A # ?R" by simp
      from 1(4) have "st \<in> {(Some CHR 0x60, [], (2, body) # [(1, u)])}"
        unfolding v kR .
      with ul 1(2) show ?thesis by simp
    next
      case 2
      then have nl: "\<exists>v'. ?s0 = CHR 0x0A # v'" unfolding k by (auto split: if_splits)
      have e: "lang = []"
      proof (cases lang)
        case (Cons y l')
        with nl have "y = CHR 0x0A" by simp
        with l Cons is_word_not_special [of y] show ?thesis by simp
      qed simp
      from 2 have "st \<in> set (run K (Some CHR 0x60, CHR 0x0A # ?R, []))"
        unfolding e by simp
      then have "st \<in> {(Some CHR 0x60, [], (2, body) # [])}" unfolding kR .
      with e show ?thesis by simp
    qed
  next
    fix st :: mstate assume "st \<in> {?fin}"
    then have st: "st = ?fin" by simp
    show "st \<in> set (run (Seq (opt G1) K) (Some CHR 0x60, ?s0, []))"
    proof (cases "lang = []")
      case True
      have "(Some CHR 0x60, ?s0, []) \<in> set (run (opt G1) (Some CHR 0x60, ?s0, []))"
        unfolding o by blast
      moreover have "st \<in> set (run K (Some CHR 0x60, ?s0, []))"
        using True kR [of "Some CHR 0x60" "[]"] by (simp add: st)
      ultimately show ?thesis by (subst run_Seq_set) blast
    next
      case False
      have "(after (Some CHR 0x60) lang, CHR 0x0A # ?R, [(1, lang)])
              \<in> set (run G1 (Some CHR 0x60, ?s0, []))"
        unfolding g1 using False l by blast
      then have "(after (Some CHR 0x60) lang, CHR 0x0A # ?R, [(1, lang)])
              \<in> set (run (opt G1) (Some CHR 0x60, ?s0, []))"
        unfolding o by blast
      moreover have "st \<in> set (run K (after (Some CHR 0x60) lang, CHR 0x0A # ?R, [(1, lang)]))"
        unfolding kR using False by (simp add: st)
      ultimately show ?thesis by (subst run_Seq_set) blast
    qed
  qed
  define rs where "rs = run fence_re (p, ?in, [])"
  have "set rs = {?fin}" unfolding rs_def r0 by (rule all)
  then have "rs \<noteq> []" and "\<forall>st \<in> set rs. st = ?fin" by auto
  then show "run fence_re (p, ?in, []) \<noteq> []"
    and "\<forall>st \<in> set (run fence_re (p, ?in, [])). st = ?fin"
    unfolding rs_def by blast+
qed

lemma fence_pass:
  assumes l: "\<forall>x \<in> set lang. is_word x" and b: "CHR 0x60 \<notin> set body"
  shows "replace (''```'' @ lang @ CHR 0x0A # body @ ''```'') fence_re fence_html =
         code_block_html lang (trim body)"
proof -
  let ?in = "''```'' @ lang @ CHR 0x0A # body @ ''```''"
  let ?caps = "(2, body) # (if lang = [] then [] else [(1, lang)])"
  from fence_match [OF l b, of None] obtain sts where
    r: "run fence_re (None, ?in, []) = (Some CHR 0x60, [], ?caps) # sts"
    by (cases "run fence_re (None, ?in, [])") auto
  have e: "run fence_re (Some CHR 0x60, [], []) = []"
    by (simp add: fence_re_def seqs_def run_lit startsWith_def)
  have z: "replace_all fence_re fence_html (Some CHR 0x60) [] = []"
    by (subst replace_all.simps) (simp add: e)
  have c1: "cap ?caps 1 = lang" and c2: "cap ?caps 2 = body"
    by (simp_all add: cap_def)
  have h: "fence_html m ?caps = code_block_html lang (trim body)" for m
    unfolding fence_html_def Let_def c1 c2 code_block_html_def escapeHtml_eq by simp
  show ?thesis
    unfolding replace_def
    by (subst replace_all.simps) (simp add: r z h del: append.simps)
qed

lemma first_chr_no_match: "x \<notin> set v \<Longrightarrow> run (Seq (chr x) r) (p, v, c) = []"
  by (cases v) (auto simp: chr_def)

lemma first_lit_no_match: "x \<notin> set v \<Longrightarrow> run (Seq (lit (x # l)) r) (p, v, c) = []"
  by (cases v) (auto simp: run_lit startsWith_def)

lemma suffix_set: "s = u @ v \<Longrightarrow> x \<notin> set s \<Longrightarrow> x \<notin> set v"
  by auto

lemma inline_noop: "CHR 0x60 \<notin> set s \<Longrightarrow> replace s inline_re f = s"
  unfolding replace_def
proof (rule replace_all_no_match)
  fix p' u v assume "CHR 0x60 \<notin> set s" "s = u @ v"
  then have n: "CHR 0x60 \<notin> set v" by auto
  obtain R where e: "inline_re = Seq (chr CHR 0x60) R" by (simp add: inline_re_def seqs_def)
  show "run inline_re (p', v, []) = []"
    unfolding e by (rule first_chr_no_match [OF n])
qed

lemma bold_noop: "CHR ''*'' \<notin> set s \<Longrightarrow> replace s bold_re f = s"
  unfolding replace_def
proof (rule replace_all_no_match)
  fix p' u v assume "CHR ''*'' \<notin> set s" "s = u @ v"
  then have n: "CHR ''*'' \<notin> set v" by auto
  obtain R where e: "bold_re = Seq (lit ''**'') R" by (simp add: bold_re_def seqs_def)
  show "run bold_re (p', v, []) = []"
    unfolding e by (rule first_lit_no_match [OF n])
qed

lemma italic_noop: "CHR ''*'' \<notin> set s \<Longrightarrow> replace s italic_re f = s"
  unfolding replace_def
proof (rule replace_all_no_match)
  fix p' u v assume "CHR ''*'' \<notin> set s" "s = u @ v"
  then have n: "CHR ''*'' \<notin> set v" by auto
  obtain R where e: "italic_re = Seq (chr CHR ''*'') R" by (simp add: italic_re_def seqs_def)
  show "run italic_re (p', v, []) = []"
    unfolding e by (rule first_chr_no_match [OF n])
qed

lemma escape_unit_clean:
  "CHR ''<'' \<notin> set (escape_unit c)" "CHR ''>'' \<notin> set (escape_unit c)"
  "CHR 0x22 \<notin> set (escape_unit c)" "CHR 0x27 \<notin> set (escape_unit c)"
  by (simp_all add: escape_unit_def)

lemma escape_text_clean:
  "CHR ''<'' \<notin> set (escape_text s)" "CHR ''>'' \<notin> set (escape_text s)"
  "CHR 0x22 \<notin> set (escape_text s)" "CHR 0x27 \<notin> set (escape_text s)"
  by (simp_all add: escape_text_def escape_unit_clean)

lemma escape_unit_keeps:
  "x \<noteq> c \<Longrightarrow> x \<notin> set ''&amp;lt;gt;quot;#039;'' \<Longrightarrow> x \<notin> set (escape_unit c)"
  by (simp add: escape_unit_def)

lemma escape_text_keeps:
  "x \<notin> set s \<Longrightarrow> x \<notin> set ''&amp;lt;gt;quot;#039;'' \<Longrightarrow> x \<notin> set (escape_text s)"
proof (induction s)
  case Nil
  then show ?case by (simp add: escape_text_def)
next
  case (Cons c s)
  then have "x \<noteq> c" "x \<notin> set s" by auto
  with Cons escape_unit_keeps [of x c] show ?case by (simp add: escape_text_def)
qed

lemma set_trim: "x \<in> set (trim s) \<Longrightarrow> x \<in> set s"
proof -
  assume "x \<in> set (trim s)"
  then have "x \<in> set (dropWhile is_space (rev (dropWhile is_space s)))" by (simp add: trim_def)
  then have "x \<in> set (rev (dropWhile is_space s))" by (rule set_dropWhileD)
  then have "x \<in> set (dropWhile is_space s)" by simp
  then show ?thesis by (rule set_dropWhileD)
qed


lemma strip_blocks_other:
  "x \<noteq> CHR ''<'' \<Longrightarrow> strip_blocks tag marker (x # xs) = x # strip_blocks tag marker xs"
  by (simp add: block_end_not_lt)

lemma strip_blocks_lt:
  "\<not> starts_ci xs tag \<Longrightarrow>
   strip_blocks tag marker (CHR ''<'' # xs) = CHR ''<'' # strip_blocks tag marker xs"
  by (simp add: block_end_def)

lemma strip_html:
  assumes L: "CHR ''<'' \<notin> set L" and E: "CHR ''<'' \<notin> set E"
  shows \<open>strip_blocks ''script'' m (''<pre><code class="language-'' @ L @ ''">'' @ E @ ''</code></pre>'') =
         ''<pre><code class="language-'' @ L @ ''">'' @ E @ ''</code></pre>''\<close>
    and \<open>strip_blocks ''iframe'' m (''<pre><code class="language-'' @ L @ ''">'' @ E @ ''</code></pre>'') =
         ''<pre><code class="language-'' @ L @ ''">'' @ E @ ''</code></pre>''\<close>
  by (simp_all add: strip_blocks_other strip_blocks_lt strip_blocks_text [OF L]
        strip_blocks_text [OF E] ascii_upper_def del: strip_blocks.simps(2))

lemma ascii_upper_quote [simp]: "ascii_upper x = CHR 0x22 \<longleftrightarrow> x = CHR 0x22"
  by (auto simp: ascii_upper_def split: option.splits if_splits)

lemma ascii_upper_quote_eq [simp]: "ascii_upper CHR 0x22 = CHR 0x22"
  by (simp add: ascii_upper_def)

lemma handler_no_on: "\<not> starts_ci v ''on'' \<Longrightarrow> run handler_re (p, v, c) = []"
  by (simp add: handler_re_def seqs_def run_lit_i)

lemma handler_skip:
  "\<not> starts_ci (x # xs) ''on'' \<Longrightarrow>
   replace_all handler_re f p (x # xs) = x # replace_all handler_re f (Some x) xs"
  by (subst replace_all.simps) (simp add: handler_no_on)

lemma handler_quotes:
  assumes "run handler_re (p, v, c) \<noteq> []"
  shows "2 \<le> length (filter (\<lambda>x. x = CHR 0x22) v)"
proof -
  let ?Q = "\<lambda>s. length (filter (\<lambda>x. x = CHR 0x22) s)"
  from assms obtain st where "st \<in> set (run handler_re (p, v, c))"
    by (cases "run handler_re (p, v, c)") auto
  then obtain s1 s2 s3 s4 where
    1: "s1 \<in> set (run (lit_i ''on'') (p, v, c))" and
    2: "s2 \<in> set (run (many1 (Cls is_word)) s1)" and
    3: \<open>s3 \<in> set (run (lit_i ''="'') s2)\<close> and
    4: "s4 \<in> set (run (Star (Cls (\<lambda>c. c \<noteq> CHR 0x22))) s3)" and
    5: "st \<in> set (run (chr_i CHR 0x22) s4)"
    by (auto simp: handler_re_def seqs_def)
  from 1 obtain p1 where s1: "s1 = (p1, drop (length ''on'') v, c)"
    by (simp add: run_lit_i split: if_splits)
  from 2 obtain p2 u v2 where s2: "s2 = (p2, v2, c)" and d2: "drop (length ''on'') v = u @ v2"
    unfolding s1 many1_cls_set by auto
  from 3 obtain p3 where s3: \<open>s3 = (p3, drop (length ''="'') v2, c)\<close>
    and c3: \<open>starts_ci v2 ''="''\<close>
    unfolding s2 by (simp add: run_lit_i split: if_splits)
  from 4 obtain p4 u4 v4 where s4: "s4 = (p4, v4, c)"
    and d4: \<open>drop (length ''="'') v2 = u4 @ v4\<close>
    unfolding s3 star_cls_set by auto
  from 5 obtain v5 where v4: "v4 = CHR 0x22 # v5"
    unfolding s4 by (cases v4) (auto simp: chr_i_def split: if_splits)
  from c3 obtain a v3 where v2: "v2 = a # CHR 0x22 # v3"
    by (cases v2; cases "tl v2") auto
  have "?Q (take (length ''on'') v @ drop (length ''on'') v) =
        ?Q (take (length ''on'') v) + ?Q (drop (length ''on'') v)"
    by (simp only: filter_append length_append)
  then have a: "?Q (drop (length ''on'') v) \<le> ?Q v" by simp
  have b: "?Q v2 \<le> ?Q (drop (length ''on'') v)" unfolding d2 by simp
  have c: \<open>Suc (?Q (drop (length ''="'') v2)) \<le> ?Q v2\<close> unfolding v2 by simp
  have d: \<open>1 \<le> ?Q (drop (length ''="'') v2)\<close> unfolding d4 v4 by simp
  from a b c d show ?thesis by linarith
qed

lemma handler_html:
  assumes L: "CHR 0x22 \<notin> set L" and E: "CHR 0x22 \<notin> set E"
  shows \<open>replace_all handler_re f p (''<pre><code class="language-'' @ L @ ''">'' @ E @ ''</code></pre>'') =
         ''<pre><code class="language-'' @ L @ ''">'' @ E @ ''</code></pre>''\<close>
proof -
  let ?Q = "\<lambda>s. length (filter (\<lambda>x. x = CHR 0x22) s)"
  let ?B = \<open>''language-'' @ L @ ''">'' @ E @ ''</code></pre>''\<close>
  have l: "filter (\<lambda>x. x = CHR 0x22) L = []" using L by (induction L) auto
  have e: "filter (\<lambda>x. x = CHR 0x22) E = []" using E by (induction E) auto
  have q: "?Q ?B = 1" by (simp add: l e)
  have B: "replace_all handler_re f p' ?B = ?B" for p'
  proof (rule replace_all_no_match)
    fix p'' u v assume "?B = u @ v"
    then have "?Q ?B = ?Q u + ?Q v" by (simp only: filter_append length_append)
    with q have "?Q v < 2" by simp
    with handler_quotes [of p'' v "[]"] show "run handler_re (p'', v, []) = []" by fastforce
  qed
  have A: \<open>replace_all handler_re f p (''<pre><code class="'' @ rest) =
           ''<pre><code class="'' @ replace_all handler_re f (Some CHR 0x22) rest\<close> for rest
    by (simp add: handler_skip ascii_upper_def)
  from A [of ?B] B [of "Some CHR 0x22"] show ?thesis by simp
qed

lemma trim_id:
  assumes "s \<noteq> []" "\<not> is_space (hd s)" "\<not> is_space (last s)"
  shows "trim s = s"
proof -
  from assms have 1: "dropWhile is_space s = s" by (cases s) auto
  from assms have "rev s \<noteq> []" "\<not> is_space (hd (rev s))" by (simp_all add: hd_rev)
  then have 2: "dropWhile is_space (rev s) = rev s" by (cases "rev s") auto
  show ?thesis by (simp add: trim_def 1 2)
qed

lemma sanitizeResponse_html:
  assumes L: "\<forall>x \<in> set L. is_word x" and E1: "CHR ''<'' \<notin> set E" and E2: "CHR 0x22 \<notin> set E"
  shows \<open>sanitizeResponse (''<pre><code class="language-'' @ L @ ''">'' @ E @ ''</code></pre>'') =
         ''<pre><code class="language-'' @ L @ ''">'' @ E @ ''</code></pre>''\<close>
proof -
  let ?H = \<open>''<pre><code class="language-'' @ L @ ''">'' @ E @ ''</code></pre>''\<close>
  from L is_word_not_special have L1: "CHR ''<'' \<notin> set L" and L2: "CHR 0x22 \<notin> set L"
    by (auto simp: is_word_def)
  have 1: "replace ?H script_re (\<lambda>m c. []) = ?H"
    unfolding replace_def script_re_def replace_all_block by (rule strip_html(1) [OF L1 E1])
  have 2: "replace ?H iframe_re (\<lambda>m c. []) = ?H"
    unfolding replace_def iframe_re_def replace_all_block by (rule strip_html(2) [OF L1 E1])
  have 3: "replace ?H handler_re (\<lambda>m c. []) = ?H"
    unfolding replace_def by (rule handler_html [OF L2 E2])
  have 4: "trim ?H = ?H"
    by (rule trim_id) (simp_all add: is_space_def)
  show ?thesis unfolding sanitizeResponse_def 1 2 3 4 ..
qed


lemma code_block_html_keeps:
  assumes l: "\<forall>c \<in> set lang. is_word c" and b: "x \<notin> set body"
    and x: "x = CHR 0x60 \<or> x = CHR ''*''"
  shows "x \<notin> set (code_block_html lang (trim body))"
proof -
  from b set_trim [of x body] have "x \<notin> set (trim body)" by blast
  moreover from x have "x \<notin> set ''&amp;lt;gt;quot;#039;''" by auto
  ultimately have 1: "x \<notin> set (escape_text (trim body))" by (rule escape_text_keeps)
  from l x is_word_not_special have 2: "x \<notin> set lang" by blast
  from x have 3: \<open>x \<notin> set ''<pre><code class="language-''\<close> \<open>x \<notin> set ''">''\<close>
    "x \<notin> set ''</code></pre>''" "x \<notin> set ''text''" by auto
  show ?thesis unfolding code_block_html_def using 1 2 3 by (simp only: set_append Un_iff split: if_split) simp
qed

lemma sanitizeResponse_code_block:
  assumes l: "\<forall>c \<in> set lang. is_word c"
  shows "sanitizeResponse (code_block_html lang code) = code_block_html lang code"
proof -
  have w: "\<forall>c \<in> set (if lang = [] then ''text'' else lang). is_word c"
    using l by (simp add: is_word_def)
  show ?thesis
    unfolding code_block_html_def
    by (rule sanitizeResponse_html [OF w escape_text_clean(1) escape_text_clean(3)])
qed

text \<open>
  The fenced path: for a text that is one fenced block (three backticks, a language of word
  characters or none, a line feed, a body without backtick and asterisk, three backticks),
  the result is \<open><pre><code class="language-L">E</code></pre>\<close>, with \<open>L\<close> the language
  (\<open>text\<close> when there is none) and \<open>E\<close> the trimmed body with \<open>&\<close>, \<open><\<close>, \<open>>\<close>, the double
  and the single quote replaced by \<open>&amp;\<close>, \<open>&lt;\<close>, \<open>&gt;\<close>, \<open>&quot;\<close> and \<open>&#039;\<close>; no \<open><\<close>
  and no \<open>>\<close> of the body is left in \<open>E\<close>.
\<close>

lemma formatReview_fence:
  "(\<forall>x \<in> set lang. is_word x) \<and> CHR 0x60 \<notin> set body \<and> CHR ''*'' \<notin> set body \<Longrightarrow>
   formatReview (''```'' @ lang @ CHR 0x0A # body @ ''```'') = code_block_html lang (trim body)
   \<and> CHR ''<'' \<notin> set (escape_text (trim body)) \<and> CHR ''>'' \<notin> set (escape_text (trim body))"
proof -
  assume a: "(\<forall>x \<in> set lang. is_word x) \<and> CHR 0x60 \<notin> set body \<and> CHR ''*'' \<notin> set body"
  then have l: "\<forall>x \<in> set lang. is_word x" and b: "CHR 0x60 \<notin> set body"
    and s: "CHR ''*'' \<notin> set body" by simp_all
  let ?H = "code_block_html lang (trim body)"
  have 1: "replace (''```'' @ lang @ CHR 0x0A # body @ ''```'') fence_re fence_html = ?H"
    by (rule fence_pass [OF l b])
  have "CHR 0x60 \<notin> set ?H" by (rule code_block_html_keeps [OF l b]) simp
  then have 2: "replace ?H inline_re f = ?H" for f by (rule inline_noop)
  have "CHR ''*'' \<notin> set ?H" by (rule code_block_html_keeps [OF l s]) simp
  then have 3: "replace ?H bold_re f = ?H" and 4: "replace ?H italic_re f = ?H" for f
    by (rule bold_noop, rule italic_noop)
  have 5: "sanitizeResponse ?H = ?H" by (rule sanitizeResponse_code_block [OF l])
  have "formatReview (''```'' @ lang @ CHR 0x0A # body @ ''```'') = ?H"
    unfolding formatReview_def Let_def 1 2 3 4 5 ..
  then show ?thesis by (simp only: escape_text_clean simp_thms)
qed

lemma formatReview_fence_example:
  \<open>formatReview (''```js'' @ [CHR 0x0A] @ ''if (a < b && c > d) log("x")'' @ [CHR 0x0A] @ ''```'') =
     ''<pre><code class="language-js">if (a &lt; b &amp;&amp; c &gt; d) log(&quot;x&quot;)</code></pre>''\<close>
proof -
  have h: "is_word CHR ''j''" "is_word CHR ''s''"
    \<open>CHR 0x60 \<notin> set (''if (a < b && c > d) log("x")'' @ [CHR 0x0A])\<close>
    \<open>CHR ''*'' \<notin> set (''if (a < b && c > d) log("x")'' @ [CHR 0x0A])\<close>
    by code_simp+
  have t: \<open>code_block_html ''js'' (trim (''if (a < b && c > d) log("x")'' @ [CHR 0x0A])) =
     ''<pre><code class="language-js">if (a &lt; b &amp;&amp; c &gt; d) log(&quot;x&quot;)</code></pre>''\<close>
    by code_simp
  from formatReview_fence [of "''js''" \<open>''if (a < b && c > d) log("x")'' @ [CHR 0x0A]\<close>] h t
  show ?thesis by simp
qed

text \<open>
  C4. \<open>formatReview\<close> escapes the five HTML-significant characters only in the replacement
  of a fenced block. An inline code span \<open>`<img src=x onerror=alert(1)>`\<close> comes back as
  \<open><code><img src=x onerror=alert(1)></code>\<close>, with \<open><\<close> and \<open>>\<close> as they came; so do the plain
  text \<open>a<b\<close> and the body of a fenced block whose language \<open>c++\<close> is not made of word
  characters (the block is not recognised; its inner part is taken as inline code).
\<close>

theorem formatReview_unescaped:
  "formatReview ''a<b'' = ''a<b''
   \<and> formatReview ''`<img src=x onerror=alert(1)>`'' = ''<code><img src=x onerror=alert(1)></code>''
   \<and> formatReview (''```c++'' @ [CHR 0x0A] @ ''a<b'' @ [CHR 0x0A] @ ''```'') =
       ''``<code>c++'' @ [CHR 0x0A] @ ''a<b'' @ [CHR 0x0A] @ ''</code>``''"
proof (intro conjI)
  show "formatReview ''a<b'' = ''a<b''" by code_simp
  show "formatReview ''`<img src=x onerror=alert(1)>`'' =
        ''<code><img src=x onerror=alert(1)></code>''" by code_simp
  show "formatReview (''```c++'' @ [CHR 0x0A] @ ''a<b'' @ [CHR 0x0A] @ ''```'') =
       ''``<code>c++'' @ [CHR 0x0A] @ ''a<b'' @ [CHR 0x0A] @ ''</code>``''" by code_simp
qed


section \<open>Context service: the classifier\<close>

lemma test_from_iff:
  "test_from r p s \<longleftrightarrow> (\<exists>u v. s = u @ v \<and> run r (after p u, v, []) \<noteq> [])"
proof (induction s arbitrary: p)
  case Nil
  then show ?case by simp
next
  case (Cons x xs)
  show ?case
  proof
    assume "test_from r p (x # xs)"
    then consider "run r (p, x # xs, []) \<noteq> []" | "test_from r (Some x) xs" by auto
    then show "\<exists>u v. x # xs = u @ v \<and> run r (after p u, v, []) \<noteq> []"
    proof cases
      case 1
      then have "x # xs = [] @ (x # xs) \<and> run r (after p [], x # xs, []) \<noteq> []" by simp
      then show ?thesis by blast
    next
      case 2
      then obtain u v where "xs = u @ v" "run r (after (Some x) u, v, []) \<noteq> []"
        using Cons.IH by blast
      then have "x # xs = (x # u) @ v \<and> run r (after p (x # u), v, []) \<noteq> []" by simp
      then show ?thesis by blast
    qed
  next
    assume "\<exists>u v. x # xs = u @ v \<and> run r (after p u, v, []) \<noteq> []"
    then obtain u v where e: "x # xs = u @ v" and m: "run r (after p u, v, []) \<noteq> []" by blast
    show "test_from r p (x # xs)"
    proof (cases u)
      case Nil
      with e have "v = x # xs" by simp
      with m Nil have "run r (p, x # xs, []) \<noteq> []" by simp
      then show ?thesis by simp
    next
      case (Cons y ys)
      with e m have "xs = ys @ v" "run r (after (Some x) ys, v, []) \<noteq> []" by simp_all
      then have "test_from r (Some x) xs" using Cons.IH by blast
      then show ?thesis by simp
    qed
  qed
qed

lemma test_iff: "test r s \<longleftrightarrow> (\<exists>u v. s = u @ v \<and> run r (after None u, v, []) \<noteq> [])"
  by (simp add: test_def test_from_iff)

lemma ok_Seq: "run (Seq a b) st \<noteq> [] \<longleftrightarrow> (\<exists>st' \<in> set (run a st). run b st' \<noteq> [])"
  by auto

lemma ok_Eps: "run Eps st \<noteq> []"
  by simp

lemma ok_Cls:
  "run (Seq (Cls P) T) (p, s, c) \<noteq> [] \<longleftrightarrow> (\<exists>x r. s = x # r \<and> P x \<and> run T (Some x, r, c) \<noteq> [])"
  by (cases s) auto

lemma ok_chr:
  "run (Seq (chr x) T) (p, s, c) \<noteq> [] \<longleftrightarrow> (\<exists>r. s = x # r \<and> run T (Some x, r, c) \<noteq> [])"
  by (cases s) (auto simp: chr_def)

lemma ok_many1:
  "run (Seq (many1 (Cls P)) T) (p, s, c) \<noteq> [] \<longleftrightarrow>
   (\<exists>u r. s = u @ r \<and> u \<noteq> [] \<and> (\<forall>x \<in> set u. P x) \<and> run T (Some (last u), r, c) \<noteq> [])"
proof -
  have "run (Seq (many1 (Cls P)) T) (p, s, c) \<noteq> [] \<longleftrightarrow>
        (\<exists>st' \<in> {(after p u, v, c) | u v. s = u @ v \<and> u \<noteq> [] \<and> (\<forall>x \<in> set u. P x)}.
           run T st' \<noteq> [])"
    by (simp only: ok_Seq many1_cls_set)
  also have "\<dots> \<longleftrightarrow> (\<exists>u r. s = u @ r \<and> u \<noteq> [] \<and> (\<forall>x \<in> set u. P x) \<and>
                        run T (after p u, r, c) \<noteq> [])"
    by blast
  also have "\<dots> \<longleftrightarrow> (\<exists>u r. s = u @ r \<and> u \<noteq> [] \<and> (\<forall>x \<in> set u. P x) \<and>
                        run T (Some (last u), r, c) \<noteq> [])"
    by (auto simp: after_def)
  finally show ?thesis .
qed

lemma ok_Star:
  "run (Seq (Star (Cls P)) T) (p, s, c) \<noteq> [] \<longleftrightarrow>
   (\<exists>u r. s = u @ r \<and> (\<forall>x \<in> set u. P x) \<and> run T (after p u, r, c) \<noteq> [])"
proof -
  have "run (Seq (Star (Cls P)) T) (p, s, c) \<noteq> [] \<longleftrightarrow>
        (\<exists>st' \<in> {(after p u, v, c) | u v. s = u @ v \<and> (\<forall>x \<in> set u. P x)}. run T st' \<noteq> [])"
    by (simp only: ok_Seq star_cls_set)
  then show ?thesis by blast
qed

lemma ok_lit:
  "run (Seq (lit l) T) (p, s, c) \<noteq> [] \<longleftrightarrow> (\<exists>r. s = l @ r \<and> run T (after p l, r, c) \<noteq> [])"
proof (cases "startsWith s l")
  case True
  then obtain r where r: "s = l @ r" by (auto simp: startsWith_iff)
  then have "run (lit l) (p, s, c) = [(after p l, r, c)]" by (simp add: run_lit startsWith_def)
  then have "run (Seq (lit l) T) (p, s, c) = run T (after p l, r, c)" by simp
  with r show ?thesis by auto
next
  case False
  then have n: "\<not> (\<exists>r. s = l @ r)" by (simp add: startsWith_iff)
  from False have "run (lit l) (p, s, c) = []" by (simp add: run_lit)
  then have "run (Seq (lit l) T) (p, s, c) = []" by simp
  with n show ?thesis by blast
qed

lemma ok_lit_i_aux:
  "run (Seq (lit_i l) T) (p, s, c) \<noteq> [] \<longleftrightarrow>
   starts_ci s l \<and> run T (after p (take (length l) s), drop (length l) s, c) \<noteq> []"
  by (simp add: run_lit_i)

lemma ok_lit_i:
  "run (Seq (lit_i l) T) (p, s, c) \<noteq> [] \<longleftrightarrow>
   (\<exists>u r. s = u @ r \<and> map ascii_upper u = map ascii_upper l \<and> run T (after p u, r, c) \<noteq> [])"
proof
  assume a: "run (Seq (lit_i l) T) (p, s, c) \<noteq> []"
  from a [unfolded ok_lit_i_aux] have st: "starts_ci s l"
    and m: "run T (after p (take (length l) s), drop (length l) s, c) \<noteq> []"
    by blast+
  from st have "map ascii_upper (take (length l) s) = map ascii_upper l"
    by (simp add: starts_ci_def)
  moreover have "s = take (length l) s @ drop (length l) s" by simp
  ultimately show "\<exists>u r. s = u @ r \<and> map ascii_upper u = map ascii_upper l \<and>
                     run T (after p u, r, c) \<noteq> []"
    using m by blast
next
  assume "\<exists>u r. s = u @ r \<and> map ascii_upper u = map ascii_upper l \<and>
            run T (after p u, r, c) \<noteq> []"
  then obtain u r where s: "s = u @ r" and e: "map ascii_upper u = map ascii_upper l"
    and m: "run T (after p u, r, c) \<noteq> []" by blast
  from e have len: "length u = length l" by (rule map_eq_imp_length_eq)
  then have t: "take (length l) s = u" "drop (length l) s = r" using s by simp_all
  have "starts_ci s l" using e len s by (simp add: starts_ci_def)
  with m t show "run (Seq (lit_i l) T) (p, s, c) \<noteq> []" by (simp only: ok_lit_i_aux simp_thms)
qed

lemma ok_WordB:
  "run (Seq WordB T) (p, s, c) \<noteq> [] \<longleftrightarrow> at_boundary p s \<and> run T (p, s, c) \<noteq> []"
  by simp

lemma ok_Alt:
  "run (Seq (Alt a b) T) st \<noteq> [] \<longleftrightarrow> run (Seq a T) st \<noteq> [] \<or> run (Seq b T) st \<noteq> []"
  by auto

lemma concat_map_concat:
  "concat (map f (concat xss)) = concat (map (\<lambda>xs. concat (map f xs)) xss)"
  by (induction xss) auto

lemma run_Seq_fun: "run (Seq a b) = (\<lambda>st. concat (map (run b) (run a st)))"
  by (rule ext) simp

lemma run_Eps_fun: "run Eps = (\<lambda>st. [st])"
  by (rule ext) simp

lemma run_seq3_flat:
  "run (Seq (Seq a (Seq b (Seq c Eps))) T) st = run (Seq a (Seq b (Seq c T))) st"
  by (simp add: run_Seq_fun run_Eps_fun concat_map_concat o_def)

lemma ok_Seq_Eps: "run (Seq Eps T) st = run T st"
  by simp

lemma ok_Group:
  assumes "\<And>p s c c'. (run T (p, s, c) \<noteq> []) = (run T (p, s, c') \<noteq> [])"
  shows "run (Seq (Group n a) T) (p, s, c) \<noteq> [] \<longleftrightarrow> run (Seq a T) (p, s, c) \<noteq> []"
proof -
  have "run (Seq (Group n a) T) (p, s, c) \<noteq> [] \<longleftrightarrow>
        (\<exists>st \<in> set (run a (p, s, c)).
           run T (case st of (p', s', c') \<Rightarrow> (p', s', (n, take (length s - length s') s) # c')) \<noteq> [])"
    by (simp only: ok_Seq run.simps(7) set_map bex_simps(7))
  also have "\<dots> \<longleftrightarrow> (\<exists>st \<in> set (run a (p, s, c)). run T st \<noteq> [])"
  proof (rule bex_cong [OF refl])
    fix st assume "st \<in> set (run a (p, s, c))"
    obtain p' s' c' where st: "st = (p', s', c')" by (cases st)
    show "(run T (case st of (p', s', c') \<Rightarrow> (p', s', (n, take (length s - length s') s) # c')) \<noteq> []) =
          (run T st \<noteq> [])"
      unfolding st prod.case by (rule assms)
  qed
  also have "\<dots> \<longleftrightarrow> run (Seq a T) (p, s, c) \<noteq> []" by (simp only: ok_Seq)
  finally show ?thesis .
qed

lemma tag_ok:
  "run (strongIndicators ! 2) (p, v, c) \<noteq> [] \<longleftrightarrow>
   (\<exists>w b cc w2 d. v = CHR ''<'' # w @ b @ CHR ''>'' # cc @ ''</'' @ w2 @ CHR ''>'' # d \<and>
        w \<noteq> [] \<and> (\<forall>x \<in> set w. is_word x) \<and> CHR ''>'' \<notin> set b \<and>
        w2 \<noteq> [] \<and> (\<forall>x \<in> set w2. is_word x))"
proof -
  let ?T8 = "Seq (chr CHR ''>'') Eps"
  let ?T7 = "Seq (many1 (Cls is_word)) ?T8"
  let ?T6 = "Seq (lit ''</'') ?T7"
  let ?T5 = "Seq (Star any_unit) ?T6"
  let ?T4 = "Seq (chr CHR ''>'') ?T5"
  let ?T3 = "Seq (Star (Cls (\<lambda>c. c \<noteq> CHR ''>''))) ?T4"
  let ?T2 = "Seq (many1 (Cls is_word)) ?T3"
  let ?T1 = "Seq (chr CHR ''<'') ?T2"
  have e: "strongIndicators ! 2 = ?T1" by (simp add: strongIndicators_def seqs_def)
  have 8: "run ?T8 (p, s, c) \<noteq> [] \<longleftrightarrow> (\<exists>d. s = CHR ''>'' # d)" for p s c
    by (simp only: ok_chr ok_Eps simp_thms)
  have 7: "run ?T7 (p, s, c) \<noteq> [] \<longleftrightarrow>
           (\<exists>w2 d. s = w2 @ CHR ''>'' # d \<and> w2 \<noteq> [] \<and> (\<forall>x \<in> set w2. is_word x))" for p s c
    unfolding ok_many1 8 by blast
  have 6: "run ?T6 (p, s, c) \<noteq> [] \<longleftrightarrow>
           (\<exists>w2 d. s = ''</'' @ w2 @ CHR ''>'' # d \<and> w2 \<noteq> [] \<and> (\<forall>x \<in> set w2. is_word x))"
    for p s c
    unfolding ok_lit 7 by blast
  have 5: "run ?T5 (p, s, c) \<noteq> [] \<longleftrightarrow>
           (\<exists>cc w2 d. s = cc @ ''</'' @ w2 @ CHR ''>'' # d \<and> w2 \<noteq> [] \<and>
              (\<forall>x \<in> set w2. is_word x))" for p s c
    unfolding any_unit_def ok_Star 6 by blast
  have 4: "run ?T4 (p, s, c) \<noteq> [] \<longleftrightarrow>
           (\<exists>cc w2 d. s = CHR ''>'' # cc @ ''</'' @ w2 @ CHR ''>'' # d \<and> w2 \<noteq> [] \<and>
              (\<forall>x \<in> set w2. is_word x))" for p s c
    unfolding ok_chr 5 by blast
  have 3: "run ?T3 (p, s, c) \<noteq> [] \<longleftrightarrow>
           (\<exists>b cc w2 d. s = b @ CHR ''>'' # cc @ ''</'' @ w2 @ CHR ''>'' # d \<and>
              CHR ''>'' \<notin> set b \<and> w2 \<noteq> [] \<and> (\<forall>x \<in> set w2. is_word x))" for p s c
    unfolding ok_Star 4 by blast
  have 2: "run ?T2 (p, s, c) \<noteq> [] \<longleftrightarrow>
           (\<exists>w b cc w2 d. s = w @ b @ CHR ''>'' # cc @ ''</'' @ w2 @ CHR ''>'' # d \<and>
              w \<noteq> [] \<and> (\<forall>x \<in> set w. is_word x) \<and>
              CHR ''>'' \<notin> set b \<and> w2 \<noteq> [] \<and> (\<forall>x \<in> set w2. is_word x))" for p s c
    unfolding ok_many1 3 by blast
  show ?thesis unfolding e ok_chr 2 by blast
qed

lemma paired_tag_test: "test (strongIndicators ! 2) s \<longleftrightarrow> paired_tag s"
  unfolding test_iff tag_ok paired_tag_def by blast


lemma upper_word:
  assumes "ascii_upper c \<in> set ''ABCDEFGHIJKLMNOPQRSTUVWXYZ''"
  shows "is_word c"
proof (cases "map_of (zip ''abcdefghijklmnopqrstuvwxyz'' ''ABCDEFGHIJKLMNOPQRSTUVWXYZ'') c")
  case None
  then have "ascii_upper c = c" by (simp add: ascii_upper_def)
  with assms have "c \<in> set ''ABCDEFGHIJKLMNOPQRSTUVWXYZ''" by simp
  then show ?thesis unfolding is_word_def by (simp only: set_append Un_iff simp_thms)
next
  case (Some u)
  then have "(c, u) \<in> set (zip ''abcdefghijklmnopqrstuvwxyz'' ''ABCDEFGHIJKLMNOPQRSTUVWXYZ'')"
    by (rule map_of_SomeD)
  then have "c \<in> set ''abcdefghijklmnopqrstuvwxyz''" by (rule set_zip_leftD)
  then show ?thesis unfolding is_word_def by (simp only: set_append Un_iff simp_thms)
qed

lemma keyword_word:
  assumes e: "map ascii_upper x = V" and n: "V \<noteq> []"
    and v: "set V \<subseteq> set ''ABCDEFGHIJKLMNOPQRSTUVWXYZ''"
  shows "x \<noteq> []" "is_word (hd x)" "is_word (last x)"
proof -
  from e n show x: "x \<noteq> []" by auto
  have "ascii_upper c \<in> set V" if "c \<in> set x" for c
  proof -
    from that have "ascii_upper c \<in> set (map ascii_upper x)" by simp
    then show ?thesis unfolding e .
  qed
  with v have w: "is_word c" if "c \<in> set x" for c using that upper_word by blast
  from x show "is_word (hd x)" "is_word (last x)" by (simp_all add: w)
qed

lemma at_boundary_before:
  "k \<noteq> [] \<Longrightarrow> is_word (hd k) \<Longrightarrow> at_boundary (after None a) (k @ r) \<longleftrightarrow> \<not> ends_word a"
  by (cases k) (auto simp: at_boundary_def after_def ends_word_def)

lemma at_boundary_after:
  "x \<noteq> [] \<Longrightarrow> is_word (last x) \<Longrightarrow> at_boundary (after p x) r \<longleftrightarrow> \<not> starts_word r"
  by (cases r) (auto simp: at_boundary_def after_def starts_word_def)


lemma decl_ok:
  "run (strongIndicators ! 1) (p, v, c) \<noteq> [] \<longleftrightarrow>
   at_boundary p v \<and>
   (\<exists>k sp name sp' d. v = k @ sp @ name @ sp' @ CHR ''('' # d \<and>
      (k = ''function'' \<or> k = ''def'' \<or>
       (\<exists>ws. k = ''async'' @ ws @ ''function'' \<and> ws \<noteq> [] \<and> (\<forall>x \<in> set ws. is_space x))) \<and>
      sp \<noteq> [] \<and> (\<forall>x \<in> set sp. is_space x) \<and>
      name \<noteq> [] \<and> (\<forall>x \<in> set name. is_word x) \<and>
      (\<forall>x \<in> set sp'. is_space x))"
proof -
  let ?T4 = "Seq (chr CHR ''('') Eps"
  let ?T3 = "Seq (Star (Cls is_space)) ?T4"
  let ?T2 = "Seq (many1 (Cls is_word)) ?T3"
  let ?T = "Seq (many1 (Cls is_space)) ?T2"
  let ?C = "Seq (lit ''async'') (Seq (many1 (Cls is_space)) (Seq (lit ''function'') Eps))"
  let ?A = "Alt (lit ''function'') (Alt (lit ''def'') ?C)"
  let ?tail = "\<lambda>s. \<exists>sp name sp' d. s = sp @ name @ sp' @ CHR ''('' # d \<and>
      sp \<noteq> [] \<and> (\<forall>x \<in> set sp. is_space x) \<and>
      name \<noteq> [] \<and> (\<forall>x \<in> set name. is_word x) \<and>
      (\<forall>x \<in> set sp'. is_space x)"
  have e: "strongIndicators ! 1 = Seq WordB (Seq (Group 1 ?A) ?T)"
    by (simp add: strongIndicators_def seqs_def)
  have 4: "run ?T4 (p, s, c) \<noteq> [] \<longleftrightarrow> (\<exists>d. s = CHR ''('' # d)" for p s c
    by (simp only: ok_chr ok_Eps simp_thms)
  have 3: "run ?T3 (p, s, c) \<noteq> [] \<longleftrightarrow>
           (\<exists>sp' d. s = sp' @ CHR ''('' # d \<and> (\<forall>x \<in> set sp'. is_space x))" for p s c
    unfolding ok_Star 4 by blast
  have 2: "run ?T2 (p, s, c) \<noteq> [] \<longleftrightarrow>
           (\<exists>name sp' d. s = name @ sp' @ CHR ''('' # d \<and>
              name \<noteq> [] \<and> (\<forall>x \<in> set name. is_word x) \<and> (\<forall>x \<in> set sp'. is_space x))"
    for p s c
    unfolding ok_many1 3 by blast
  have t: "run ?T (p, s, c) \<noteq> [] \<longleftrightarrow> ?tail s" for p s c
    by (subst ok_many1, unfold 2, blast)
  have k1: "run (Seq (lit ''function'') ?T) (p, s, c) \<noteq> [] \<longleftrightarrow>
            (\<exists>r. s = ''function'' @ r \<and> ?tail r)" for p s c
    unfolding ok_lit t ..
  have k2: "run (Seq (lit ''def'') ?T) (p, s, c) \<noteq> [] \<longleftrightarrow>
            (\<exists>r. s = ''def'' @ r \<and> ?tail r)" for p s c
    unfolding ok_lit t ..
  have k3a: "run (Seq (lit ''function'') ?T) (p, s, c) \<noteq> [] \<longleftrightarrow>
            (\<exists>r. s = ''function'' @ r \<and> ?tail r)" for p s c
    by (rule k1)
  have k3b: "run (Seq (many1 (Cls is_space)) (Seq (lit ''function'') ?T)) (p, s, c) \<noteq> [] \<longleftrightarrow>
            (\<exists>ws r. s = ws @ ''function'' @ r \<and> ws \<noteq> [] \<and> (\<forall>x \<in> set ws. is_space x) \<and>
               ?tail r)" for p s c
    unfolding ok_many1 k1 by blast
  have k3: "run (Seq ?C ?T) (p, s, c) \<noteq> [] \<longleftrightarrow>
            (\<exists>ws r. s = ''async'' @ ws @ ''function'' @ r \<and> ws \<noteq> [] \<and>
               (\<forall>x \<in> set ws. is_space x) \<and> ?tail r)" for p s c
    unfolding run_seq3_flat ok_lit k3b by blast
  have a: "run (Seq ?A ?T) (p, s, c) \<noteq> [] \<longleftrightarrow>
           (\<exists>k r. s = k @ r \<and>
              (k = ''function'' \<or> k = ''def'' \<or>
               (\<exists>ws. k = ''async'' @ ws @ ''function'' \<and> ws \<noteq> [] \<and>
                  (\<forall>x \<in> set ws. is_space x))) \<and> ?tail r)" for p s c
  proof -
    have "run (Seq ?A ?T) (p, s, c) \<noteq> [] \<longleftrightarrow>
          (\<exists>r. s = ''function'' @ r \<and> ?tail r) \<or> (\<exists>r. s = ''def'' @ r \<and> ?tail r) \<or>
          (\<exists>ws r. s = ''async'' @ ws @ ''function'' @ r \<and> ws \<noteq> [] \<and>
               (\<forall>x \<in> set ws. is_space x) \<and> ?tail r)"
      unfolding ok_Alt k1 k2 k3 ..
    also have "\<dots> \<longleftrightarrow> (\<exists>k r. s = k @ r \<and>
              (k = ''function'' \<or> k = ''def'' \<or>
               (\<exists>ws. k = ''async'' @ ws @ ''function'' \<and> ws \<noteq> [] \<and>
                  (\<forall>x \<in> set ws. is_space x))) \<and> ?tail r)"
      (is "?L \<longleftrightarrow> ?R")
    proof
      assume ?L
      then consider r where "s = ''function'' @ r" "?tail r"
        | r where "s = ''def'' @ r" "?tail r"
        | ws r where "s = ''async'' @ ws @ ''function'' @ r" "ws \<noteq> []"
            "\<forall>x \<in> set ws. is_space x" "?tail r"
        by blast
      then show ?R
      proof cases
        case 1
        then show ?thesis by blast
      next
        case 2
        then show ?thesis by blast
      next
        case 3
        then have "s = (''async'' @ ws @ ''function'') @ r" by simp
        with 3 show ?thesis by blast
      qed
    next
      assume ?R
      then obtain k r where s: "s = k @ r" and r: "?tail r"
        and k: "k = ''function'' \<or> k = ''def'' \<or>
               (\<exists>ws. k = ''async'' @ ws @ ''function'' \<and> ws \<noteq> [] \<and>
                  (\<forall>x \<in> set ws. is_space x))" by blast
      from k consider "k = ''function''" | "k = ''def''"
        | ws where "k = ''async'' @ ws @ ''function''" "ws \<noteq> []" "\<forall>x \<in> set ws. is_space x"
        by blast
      then show ?L
      proof cases
        case 1
        with s r show ?thesis by blast
      next
        case 2
        with s r show ?thesis by blast
      next
        case 3
        with s have "s = ''async'' @ ws @ ''function'' @ r" by simp
        with 3 r show ?thesis by blast
      qed
    qed
    finally show ?thesis .
  qed
  have g: "run (Seq (Group 1 ?A) ?T) (p, s, c) \<noteq> [] \<longleftrightarrow> run (Seq ?A ?T) (p, s, c) \<noteq> []"
    for p s c
    by (rule ok_Group) (simp only: t)
  have "run (strongIndicators ! 1) (p, v, c) \<noteq> [] \<longleftrightarrow>
        at_boundary p v \<and> (\<exists>k r. v = k @ r \<and>
              (k = ''function'' \<or> k = ''def'' \<or>
               (\<exists>ws. k = ''async'' @ ws @ ''function'' \<and> ws \<noteq> [] \<and>
                  (\<forall>x \<in> set ws. is_space x))) \<and> ?tail r)"
    unfolding e ok_WordB g a ..
  then show ?thesis by blast
qed

lemma decl_header_test: "test (strongIndicators ! 1) s \<longleftrightarrow> decl_header s"
proof -
  have b: "at_boundary (after None a) (k @ r) \<longleftrightarrow> \<not> ends_word a"
    if "k = ''function'' \<or> k = ''def'' \<or>
        (\<exists>ws. k = ''async'' @ ws @ ''function'' \<and> ws \<noteq> [] \<and> (\<forall>x \<in> set ws. is_space x))"
    for a k r
  proof (rule at_boundary_before)
    from that show "k \<noteq> []" by auto
    from that show "is_word (hd k)" by (auto simp: is_word_def)
  qed
  show ?thesis
  proof
    assume "test (strongIndicators ! 1) s"
    then obtain a v k sp name sp' d where s: "s = a @ v" and bd: "at_boundary (after None a) v"
      and v: "v = k @ sp @ name @ sp' @ CHR ''('' # d"
      and k: "k = ''function'' \<or> k = ''def'' \<or>
        (\<exists>ws. k = ''async'' @ ws @ ''function'' \<and> ws \<noteq> [] \<and> (\<forall>x \<in> set ws. is_space x))"
      and r: "sp \<noteq> []" "\<forall>x \<in> set sp. is_space x" "name \<noteq> []" "\<forall>x \<in> set name. is_word x"
        "\<forall>x \<in> set sp'. is_space x"
      unfolding test_iff decl_ok by blast
    from bd v b [OF k] have "\<not> ends_word a" by blast
    with s v k r show "decl_header s" unfolding decl_header_def by blast
  next
    assume "decl_header s"
    then obtain a k sp name sp' d where s: "s = a @ k @ sp @ name @ sp' @ CHR ''('' # d"
      and a: "\<not> ends_word a"
      and k: "k = ''function'' \<or> k = ''def'' \<or>
        (\<exists>ws. k = ''async'' @ ws @ ''function'' \<and> ws \<noteq> [] \<and> (\<forall>x \<in> set ws. is_space x))"
      and r: "sp \<noteq> []" "\<forall>x \<in> set sp. is_space x" "name \<noteq> []" "\<forall>x \<in> set name. is_word x"
        "\<forall>x \<in> set sp'. is_space x"
      unfolding decl_header_def by blast
    from a b [OF k] have "at_boundary (after None a) (k @ sp @ name @ sp' @ CHR ''('' # d)"
      by blast
    with s k r show "test (strongIndicators ! 1) s" unfolding test_iff decl_ok by blast
  qed
qed


lemma alts_lit_i_ok:
  "run (Seq (alts (lit_i A) (map lit_i L)) T) (p, s, c) \<noteq> [] \<longleftrightarrow>
   (\<exists>x r. s = x @ r \<and> map ascii_upper x \<in> set (map (map ascii_upper) (A # L)) \<and>
      run T (after p x, r, c) \<noteq> [])"
proof (induction L arbitrary: A)
  case Nil
  show ?case by (simp only: alts.simps list.map ok_lit_i list.set insert_iff empty_iff simp_thms)
next
  case (Cons B L)
  have "run (Seq (alts (lit_i A) (map lit_i (B # L))) T) (p, s, c) \<noteq> [] \<longleftrightarrow>
        run (Seq (lit_i A) T) (p, s, c) \<noteq> [] \<or>
        run (Seq (alts (lit_i B) (map lit_i L)) T) (p, s, c) \<noteq> []"
    by (simp only: list.map alts.simps ok_Alt)
  also have "\<dots> \<longleftrightarrow>
     (\<exists>x r. s = x @ r \<and> map ascii_upper x = map ascii_upper A \<and> run T (after p x, r, c) \<noteq> []) \<or>
     (\<exists>x r. s = x @ r \<and> map ascii_upper x \<in> set (map (map ascii_upper) (B # L)) \<and>
        run T (after p x, r, c) \<noteq> [])"
    by (simp only: ok_lit_i Cons.IH)
  also have "\<dots> \<longleftrightarrow>
     (\<exists>x r. s = x @ r \<and> map ascii_upper x \<in> set (map (map ascii_upper) (A # B # L)) \<and>
        run T (after p x, r, c) \<noteq> [])"
  proof -
    have m: "set (map (map ascii_upper) (A # B # L)) =
             insert (map ascii_upper A) (set (map (map ascii_upper) (B # L)))" by simp
    show ?thesis unfolding m by blast
  qed
  finally show ?case .
qed

lemma keywords_ok:
  assumes t: "\<And>p s c c'. (run T (p, s, c) \<noteq> []) = (run T (p, s, c') \<noteq> [])"
    and up: "map (map ascii_upper) (A # L) = A # L"
  shows "run (Seq (Group n (alts (lit_i A) (map lit_i L))) T) (p, s, c) \<noteq> [] \<longleftrightarrow>
         (\<exists>x r. s = x @ r \<and> map ascii_upper x \<in> set (A # L) \<and> run T (after p x, r, c) \<noteq> [])"
proof -
  have "run (Seq (Group n (alts (lit_i A) (map lit_i L))) T) (p, s, c) \<noteq> [] \<longleftrightarrow>
        run (Seq (alts (lit_i A) (map lit_i L)) T) (p, s, c) \<noteq> []"
    by (rule ok_Group) (rule t)
  then show ?thesis unfolding alts_lit_i_ok up .
qed

lemma sql_ok_gen:
  assumes upV: "map (map ascii_upper) (A # L) = A # L"
    and upC: "map (map ascii_upper) (B # M) = B # M"
  shows "run (Seq WordB (Seq (Group 1 (alts (lit_i A) (map lit_i L)))
           (Seq WordB (Seq (Star any_unit) (Seq WordB
             (Seq (Group 2 (alts (lit_i B) (map lit_i M))) (Seq WordB Eps)))))))
         (p, v, c) \<noteq> [] \<longleftrightarrow>
   at_boundary p v \<and>
   (\<exists>x b y d. v = x @ b @ y @ d \<and>
      map ascii_upper x \<in> set (A # L) \<and> map ascii_upper y \<in> set (B # M) \<and>
      at_boundary (after p x) (b @ y @ d) \<and>
      at_boundary (after p (x @ b)) (y @ d) \<and>
      at_boundary (after p (x @ b @ y)) d)"
proof -
  define vb where "vb x \<longleftrightarrow> map ascii_upper x \<in> set (A # L)" for x
  define cl where "cl y \<longleftrightarrow> map ascii_upper y \<in> set (B # M)" for y
  let ?V = "Group 1 (alts (lit_i A) (map lit_i L))"
  let ?C = "Group 2 (alts (lit_i B) (map lit_i M))"
  let ?T7 = "Seq WordB Eps"
  let ?T6 = "Seq ?C ?T7"
  let ?T5 = "Seq WordB ?T6"
  let ?T4 = "Seq (Star any_unit) ?T5"
  let ?T3 = "Seq WordB ?T4"
  let ?T2 = "Seq ?V ?T3"
  let ?T1 = "Seq WordB ?T2"
  have 7: "run ?T7 (p, s, c) \<noteq> [] \<longleftrightarrow> at_boundary p s" for p s c
    by (simp only: ok_WordB ok_Eps simp_thms)
  have 6: "run ?T6 (p, s, c) \<noteq> [] \<longleftrightarrow>
           (\<exists>y d. s = y @ d \<and> cl y \<and> at_boundary (after p y) d)" for p s c
    unfolding cl_def by (subst keywords_ok [OF _ upC]) (simp_all only: 7)
  have 5: "run ?T5 (p, s, c) \<noteq> [] \<longleftrightarrow>
           at_boundary p s \<and> (\<exists>y d. s = y @ d \<and> cl y \<and> at_boundary (after p y) d)" for p s c
    by (subst ok_WordB) (simp only: 6)
  have 4: "run ?T4 (p, s, c) \<noteq> [] \<longleftrightarrow>
           (\<exists>b y d. s = b @ y @ d \<and> cl y \<and> at_boundary (after p b) (y @ d) \<and>
              at_boundary (after p (b @ y)) d)" for p s c
    unfolding any_unit_def
    by (subst ok_Star, unfold 5 after_append, blast)
  have 3: "run ?T3 (p, s, c) \<noteq> [] \<longleftrightarrow>
           at_boundary p s \<and>
           (\<exists>b y d. s = b @ y @ d \<and> cl y \<and> at_boundary (after p b) (y @ d) \<and>
              at_boundary (after p (b @ y)) d)" for p s c
    by (subst ok_WordB) (simp only: 4)
  have 2: "run ?T2 (p, s, c) \<noteq> [] \<longleftrightarrow>
           (\<exists>x b y d. s = x @ b @ y @ d \<and> vb x \<and> cl y \<and>
              at_boundary (after p x) (b @ y @ d) \<and>
              at_boundary (after p (x @ b)) (y @ d) \<and>
              at_boundary (after p (x @ b @ y)) d)" for p s c
  proof -
    have "run ?T2 (p, s, c) \<noteq> [] \<longleftrightarrow>
          (\<exists>x r. s = x @ r \<and> vb x \<and> run ?T3 (after p x, r, c) \<noteq> [])"
      unfolding vb_def by (rule keywords_ok [OF _ upV]) (simp only: 3)
    also have "\<dots> \<longleftrightarrow> (\<exists>x r. s = x @ r \<and> vb x \<and> at_boundary (after p x) r \<and>
           (\<exists>b y d. r = b @ y @ d \<and> cl y \<and> at_boundary (after (after p x) b) (y @ d) \<and>
              at_boundary (after (after p x) (b @ y)) d))"
      by (simp only: 3)
    also have "\<dots> \<longleftrightarrow> (\<exists>x b y d. s = x @ b @ y @ d \<and> vb x \<and> cl y \<and>
              at_boundary (after p x) (b @ y @ d) \<and>
              at_boundary (after p (x @ b)) (y @ d) \<and>
              at_boundary (after p (x @ b @ y)) d)"
      unfolding after_append [symmetric] by blast
    finally show ?thesis .
  qed
  have "run ?T1 (p, v, c) \<noteq> [] \<longleftrightarrow> at_boundary p v \<and>
        (\<exists>x b y d. v = x @ b @ y @ d \<and> vb x \<and> cl y \<and>
              at_boundary (after p x) (b @ y @ d) \<and>
              at_boundary (after p (x @ b)) (y @ d) \<and>
              at_boundary (after p (x @ b @ y)) d)"
    by (subst ok_WordB) (simp only: 2)
  then show ?thesis unfolding vb_def cl_def .
qed

lemma sql_ok:
  "run (strongIndicators ! 0) (p, v, c) \<noteq> [] \<longleftrightarrow>
   at_boundary p v \<and>
   (\<exists>x b y d. v = x @ b @ y @ d \<and>
      map ascii_upper x \<in> set [''SELECT'', ''INSERT'', ''UPDATE'', ''DELETE''] \<and>
      map ascii_upper y \<in> set [''FROM'', ''INTO'', ''SET'', ''WHERE''] \<and>
      at_boundary (after p x) (b @ y @ d) \<and>
      at_boundary (after p (x @ b)) (y @ d) \<and>
      at_boundary (after p (x @ b @ y)) d)"
proof -
  have upV: "map (map ascii_upper) [''SELECT'', ''INSERT'', ''UPDATE'', ''DELETE''] =
             [''SELECT'', ''INSERT'', ''UPDATE'', ''DELETE'']"
    by code_simp
  have upC: "map (map ascii_upper) [''FROM'', ''INTO'', ''SET'', ''WHERE''] =
             [''FROM'', ''INTO'', ''SET'', ''WHERE'']"
    by code_simp
  have e: "strongIndicators ! 0 =
     Seq WordB (Seq (Group 1 (alts (lit_i ''SELECT'') (map lit_i [''INSERT'', ''UPDATE'', ''DELETE''])))
           (Seq WordB (Seq (Star any_unit) (Seq WordB
             (Seq (Group 2 (alts (lit_i ''FROM'') (map lit_i [''INTO'', ''SET'', ''WHERE''])))
                (Seq WordB Eps))))))"
    by (simp add: strongIndicators_def seqs_def)
  show ?thesis unfolding e by (rule sql_ok_gen [OF upV upC])
qed

lemma keyword_edges:
  assumes "map ascii_upper x \<in> set [''SELECT'', ''INSERT'', ''UPDATE'', ''DELETE''] \<or>
           map ascii_upper x \<in> set [''FROM'', ''INTO'', ''SET'', ''WHERE'']"
  shows "x \<noteq> []" "is_word (hd x)" "is_word (last x)"
proof -
  let ?V = "map ascii_upper x"
  from assms have "set ?V \<subseteq> set ''ABCDEFGHIJKLMNOPQRSTUVWXYZ'' \<and> ?V \<noteq> []"
    by (elim disjE) (simp_all only: list.set insert_iff empty_iff, auto)
  then have c: "set ?V \<subseteq> set ''ABCDEFGHIJKLMNOPQRSTUVWXYZ''" and n: "?V \<noteq> []" by blast+
  from keyword_word [OF refl n c] show "x \<noteq> []" "is_word (hd x)" "is_word (last x)" .
qed

lemma sql_edges:
  assumes x: "x \<noteq> []" "is_word (hd x)" "is_word (last x)"
    and y: "y \<noteq> []" "is_word (hd y)" "is_word (last y)"
  shows "at_boundary (after None a) (x @ b @ y @ d) \<and>
         at_boundary (after (after None a) x) (b @ y @ d) \<and>
         at_boundary (after (after None a) (x @ b)) (y @ d) \<and>
         at_boundary (after (after None a) (x @ b @ y)) d \<longleftrightarrow>
         \<not> ends_word a \<and> \<not> starts_word (b @ y @ d) \<and> \<not> ends_word (a @ x @ b) \<and>
         \<not> starts_word d"
proof -
  have 1: "at_boundary (after None a) (x @ b @ y @ d) \<longleftrightarrow> \<not> ends_word a"
    by (rule at_boundary_before [OF x(1,2)])
  have 2: "at_boundary (after (after None a) x) (b @ y @ d) \<longleftrightarrow> \<not> starts_word (b @ y @ d)"
    by (rule at_boundary_after [OF x(1,3)])
  have "after (after None a) (x @ b) = after None (a @ x @ b)"
    by (simp only: after_append [symmetric])
  then have 3: "at_boundary (after (after None a) (x @ b)) (y @ d) \<longleftrightarrow> \<not> ends_word (a @ x @ b)"
    using at_boundary_before [OF y(1,2), of "a @ x @ b" d] by simp
  have "x @ b @ y = (x @ b) @ y" by simp
  then have "after (after None a) (x @ b @ y) = after (after (after None a) (x @ b)) y"
    by (simp only: after_append)
  then have 4: "at_boundary (after (after None a) (x @ b @ y)) d \<longleftrightarrow> \<not> starts_word d"
    using at_boundary_after [OF y(1,3), of "after (after None a) (x @ b)" d] by simp
  show ?thesis unfolding 1 2 3 4 ..
qed

lemma sql_shape_test: "test (strongIndicators ! 0) s \<longleftrightarrow> sql_shape s"
proof -
  define vb where "vb x \<longleftrightarrow>
    map ascii_upper x \<in> set [''SELECT'', ''INSERT'', ''UPDATE'', ''DELETE'']" for x
  define cl where "cl y \<longleftrightarrow> map ascii_upper y \<in> set [''FROM'', ''INTO'', ''SET'', ''WHERE'']" for y
  have bd: "at_boundary (after None a) (x @ b @ y @ d) \<and>
            at_boundary (after (after None a) x) (b @ y @ d) \<and>
            at_boundary (after (after None a) (x @ b)) (y @ d) \<and>
            at_boundary (after (after None a) (x @ b @ y)) d \<longleftrightarrow>
            \<not> ends_word a \<and> \<not> starts_word (b @ y @ d) \<and> \<not> ends_word (a @ x @ b) \<and>
            \<not> starts_word d"
    if x: "vb x" and y: "cl y" for a x b y d
  proof (rule sql_edges)
    from x have "map ascii_upper x \<in> set [''SELECT'', ''INSERT'', ''UPDATE'', ''DELETE''] \<or>
           map ascii_upper x \<in> set [''FROM'', ''INTO'', ''SET'', ''WHERE'']"
      unfolding vb_def by (rule disjI1)
    from keyword_edges [OF this] show "x \<noteq> []" "is_word (hd x)" "is_word (last x)" .
    from y have "map ascii_upper y \<in> set [''SELECT'', ''INSERT'', ''UPDATE'', ''DELETE''] \<or>
           map ascii_upper y \<in> set [''FROM'', ''INTO'', ''SET'', ''WHERE'']"
      unfolding cl_def by (rule disjI2)
    from keyword_edges [OF this] show "y \<noteq> []" "is_word (hd y)" "is_word (last y)" .
  qed
  have t: "test (strongIndicators ! 0) s \<longleftrightarrow>
           (\<exists>a v. s = a @ v \<and> at_boundary (after None a) v \<and>
              (\<exists>x b y d. v = x @ b @ y @ d \<and> vb x \<and> cl y \<and>
                 at_boundary (after (after None a) x) (b @ y @ d) \<and>
                 at_boundary (after (after None a) (x @ b)) (y @ d) \<and>
                 at_boundary (after (after None a) (x @ b @ y)) d))"
    unfolding test_iff sql_ok vb_def cl_def ..
  have q: "sql_shape s \<longleftrightarrow>
     (\<exists>a x b y c. s = a @ x @ b @ y @ c \<and> vb x \<and> cl y \<and>
        \<not> ends_word a \<and> \<not> starts_word (b @ y @ c) \<and>
        \<not> ends_word (a @ x @ b) \<and> \<not> starts_word c)"
    unfolding sql_shape_def vb_def cl_def ..
  show ?thesis
  proof
    assume "test (strongIndicators ! 0) s"
    then obtain a x b y d where s: "s = a @ x @ b @ y @ d"
      and x: "vb x" and y: "cl y"
      and b: "at_boundary (after None a) (x @ b @ y @ d) \<and>
            at_boundary (after (after None a) x) (b @ y @ d) \<and>
            at_boundary (after (after None a) (x @ b)) (y @ d) \<and>
            at_boundary (after (after None a) (x @ b @ y)) d"
      unfolding t by blast
    from b bd [OF x y] have "\<not> ends_word a \<and> \<not> starts_word (b @ y @ d) \<and>
      \<not> ends_word (a @ x @ b) \<and> \<not> starts_word d" by blast
    with s x y show "sql_shape s" unfolding q by blast
  next
    assume "sql_shape s"
    then obtain a x b y d where s: "s = a @ x @ b @ y @ d"
      and x: "vb x" and y: "cl y"
      and b: "\<not> ends_word a \<and> \<not> starts_word (b @ y @ d) \<and>
      \<not> ends_word (a @ x @ b) \<and> \<not> starts_word d"
      unfolding q by blast
    from b bd [OF x y] have "at_boundary (after None a) (x @ b @ y @ d) \<and>
            at_boundary (after (after None a) x) (b @ y @ d) \<and>
            at_boundary (after (after None a) (x @ b)) (y @ d) \<and>
            at_boundary (after (after None a) (x @ b @ y)) d" by blast
    with s x y show "test (strongIndicators ! 0) s" unfolding t by blast
  qed
qed

lemma strong_patterns:
  "(\<exists>pattern \<in> set strongIndicators. test pattern s) \<longleftrightarrow>
   sql_shape s \<or> decl_header s \<or> paired_tag s"
proof -
  have "strongIndicators = [strongIndicators ! 0, strongIndicators ! 1, strongIndicators ! 2]"
    by (simp add: strongIndicators_def)
  then have "set strongIndicators = set [strongIndicators ! 0, strongIndicators ! 1, strongIndicators ! 2]"
    by simp
  then have "(\<exists>pattern \<in> set strongIndicators. test pattern s) \<longleftrightarrow>
     test (strongIndicators ! 0) s \<or> test (strongIndicators ! 1) s \<or> test (strongIndicators ! 2) s"
    by (simp only: list.set bex_simps(5) bex_empty simp_thms)
  then show ?thesis
    by (simp only: sql_shape_test decl_header_test paired_tag_test)
qed


lemma startsWith_includes: "startsWith s pre \<Longrightarrow> str_includes s pre"
  by (cases s) (auto simp: startsWith_def)

text \<open>
  C2. \<open>isCode\<close> is true when the trimmed text contains the fence marker of three backticks,
  or when it has one of the three strong shapes: a complete SQL statement (\<open>sql_shape\<close>), a
  declaration header (\<open>decl_header\<close>), a paired opening and closing tag (\<open>paired_tag\<close>);
  otherwise, with \<open>m\<close> the number of indicator patterns that match the trimmed text, it is
  false when the trimmed text has fewer than 50 characters and \<open>m < 2\<close>, and else it is true
  exactly when \<open>m \<ge> 2\<close>.
\<close>

theorem isCode_spec:
  "isCode input =
     (let trimmed = trim input;
          m = length (filter (\<lambda>pattern. test pattern trimmed) codeIndicators)
      in if str_includes trimmed ''```'' then True
         else if sql_shape trimmed \<or> decl_header trimmed \<or> paired_tag trimmed then True
         else if length trimmed < 50 \<and> m < 2 then False
         else m \<ge> 2)"
  using startsWith_includes [of "trim input" "''```''"]
  by (auto simp: isCode_def Let_def strong_patterns [symmetric])

text \<open>
  The four inputs of the specification's test list; three short texts that are code by a
  strong shape alone (one indicator each); two long texts; and, for nine sample texts, the
  indicators that match each.
\<close>

theorem isCode_spec_witness:
  "isCode (''```'' @ [CHR 0x0A] @ ''let x = 1'' @ [CHR 0x0A] @ ''```'')
   \<and> \<not> isCode ''hello, how are you?''
   \<and> isCode ''SELECT * FROM users WHERE id=1''
   \<and> length ''hello; you'' = 10
   \<and> length (filter (\<lambda>pattern. test pattern (trim ''hello; you'')) codeIndicators) = 1
   \<and> \<not> isCode ''hello; you''
   \<and> decl_header ''def f(x)''
   \<and> length (filter (\<lambda>pattern. test pattern (trim ''def f(x)'')) codeIndicators) = 1
   \<and> isCode ''def f(x)''
   \<and> paired_tag ''<p>hi</p>''
   \<and> length (filter (\<lambda>pattern. test pattern (trim ''<p>hi</p>'')) codeIndicators) = 1
   \<and> isCode ''<p>hi</p>''
   \<and> sql_shape ''DELETE FROM t''
   \<and> length (filter (\<lambda>pattern. test pattern (trim ''DELETE FROM t'')) codeIndicators) = 1
   \<and> isCode ''DELETE FROM t''
   \<and> \<not> isCode ''one semicolon; and then many plain words that say nothing more''
   \<and> isCode ''the value is kept in a map, so write m.get(key) to read it back''
   \<and> map (\<lambda>s. map (\<lambda>pattern. test pattern s) codeIndicators)
        [''return'', ''}'', ''x = 1'', ''=>'', ''a.b('', '': string'', ''<br>'', ''join'', ''//''] =
      [[True, False, False, False, False, False, False, False, False],
       [False, True, False, False, False, False, False, False, False],
       [False, False, True, False, False, False, False, False, False],
       [False, False, False, True, False, False, False, False, False],
       [False, True, False, False, True, False, False, False, False],
       [False, False, False, False, False, True, False, False, False],
       [False, False, False, False, False, False, True, False, False],
       [False, False, False, False, False, False, False, True, False],
       [False, False, False, False, False, False, False, False, True]]"
proof -
  let ?a = "''```'' @ [CHR 0x0A] @ ''let x = 1'' @ [CHR 0x0A] @ ''```''"
  have a: "str_includes (trim ?a) ''```''" by code_simp
  have 1: "isCode ?a"
    using isCode_spec [of ?a] a by (simp add: Let_def)
  let ?b = "''hello, how are you?''"
  have b: "\<not> str_includes (trim ?b) ''```''"
    "\<not> (\<exists>pattern \<in> set strongIndicators. test pattern (trim ?b))"
    "length (filter (\<lambda>pattern. test pattern (trim ?b)) codeIndicators) = 0"
    by code_simp+
  have 2: "\<not> isCode ?b"
    using isCode_spec [of ?b] b by (simp add: Let_def strong_patterns)
  let ?c = "''SELECT * FROM users WHERE id=1''"
  have c: "\<not> str_includes (trim ?c) ''```''" "test (strongIndicators ! 0) (trim ?c)"
    by code_simp+
  have 3: "isCode ?c"
    using isCode_spec [of ?c] c by (simp add: Let_def sql_shape_test)
  let ?d = "''hello; you''"
  have d: "\<not> str_includes (trim ?d) ''```''"
    "\<not> (\<exists>pattern \<in> set strongIndicators. test pattern (trim ?d))"
    "length (filter (\<lambda>pattern. test pattern (trim ?d)) codeIndicators) = 1"
    "length (trim ?d) = 10"
    by code_simp+
  have 4: "\<not> isCode ?d"
    using isCode_spec [of ?d] d by (simp add: Let_def strong_patterns)
  let ?e = "''def f(x)''"
  have e: "trim ?e = ?e" "test (strongIndicators ! 1) ?e"
    "length (filter (\<lambda>pattern. test pattern (trim ?e)) codeIndicators) = 1"
    by code_simp+
  have e': "decl_header ?e" using e(2) by (simp only: decl_header_test)
  have 5: "isCode ?e"
    using isCode_spec [of ?e] e' by (simp add: Let_def e(1))
  let ?f = "''<p>hi</p>''"
  have f: "trim ?f = ?f" "test (strongIndicators ! 2) ?f"
    "length (filter (\<lambda>pattern. test pattern (trim ?f)) codeIndicators) = 1"
    by code_simp+
  have f': "paired_tag ?f" using f(2) by (simp only: paired_tag_test)
  have 6: "isCode ?f"
    using isCode_spec [of ?f] f' by (simp add: Let_def f(1))
  let ?g = "''DELETE FROM t''"
  have g: "trim ?g = ?g" "test (strongIndicators ! 0) ?g"
    "length (filter (\<lambda>pattern. test pattern (trim ?g)) codeIndicators) = 1"
    by code_simp+
  have g': "sql_shape ?g" using g(2) by (simp only: sql_shape_test)
  have 7: "isCode ?g"
    using isCode_spec [of ?g] g' by (simp add: Let_def g(1))
  let ?h = "''one semicolon; and then many plain words that say nothing more''"
  have h: "\<not> str_includes (trim ?h) ''```''"
    "\<not> (\<exists>pattern \<in> set strongIndicators. test pattern (trim ?h))"
    "length (filter (\<lambda>pattern. test pattern (trim ?h)) codeIndicators) = 1"
    "length (trim ?h) = 62"
    by code_simp+
  have 8: "\<not> isCode ?h"
    using isCode_spec [of ?h] h by (simp add: Let_def strong_patterns)
  let ?i = "''the value is kept in a map, so write m.get(key) to read it back''"
  have i: "\<not> str_includes (trim ?i) ''```''"
    "\<not> (\<exists>pattern \<in> set strongIndicators. test pattern (trim ?i))"
    "length (filter (\<lambda>pattern. test pattern (trim ?i)) codeIndicators) = 2"
    "length (trim ?i) = 63"
    by code_simp+
  have 9: "isCode ?i"
    using isCode_spec [of ?i] i by (simp add: Let_def strong_patterns)
  have s: "map (\<lambda>s. map (\<lambda>pattern. test pattern s) codeIndicators)
        [''return'', ''}'', ''x = 1'', ''=>'', ''a.b('', '': string'', ''<br>'', ''join'', ''//''] =
      [[True, False, False, False, False, False, False, False, False],
       [False, True, False, False, False, False, False, False, False],
       [False, False, True, False, False, False, False, False, False],
       [False, False, False, True, False, False, False, False, False],
       [False, True, False, False, True, False, False, False, False],
       [False, False, False, False, False, True, False, False, False],
       [False, False, False, False, False, False, True, False, False],
       [False, False, False, False, False, False, False, True, False],
       [False, False, False, False, False, False, False, False, True]]"
    by code_simp
  have l: "length ''hello; you'' = 10" by simp
  from 1 2 3 l d(3) 4 e' e(3) 5 f' f(3) 6 g' g(3) 7 8 9 s show ?thesis
    by (intro conjI)
qed

end
